theory Spec2Isabelle
  imports Complex_Main "HOL-Library.Mapping"
begin

section \<open>Go integers and run-time panics\<close>

text \<open>
  Go's \<open>int\<close> and \<open>time.Duration\<close> are 64-bit two's-complement integers. They are
  modelled as integers with the wrap-around written out, by \<open>int64\<close>, wherever the code
  computes a value that can leave the 64-bit range: the arithmetic of
  \<open>getPosAndCircle\<close>, whose operands are a duration and a product of durations. Counts
  bounded by the length of a slice in memory are plain integers. What else differs from
  HOL is written out: \<open>/\<close> truncates towards zero, \<open>%\<close> keeps the sign of the
  dividend, a zero divisor and an index outside a slice panic.
\<close>

definition go_div :: "int \<Rightarrow> int \<Rightarrow> int" where
  "go_div a b = sgn a * sgn b * (\<bar>a\<bar> div \<bar>b\<bar>)"

definition go_mod :: "int \<Rightarrow> int \<Rightarrow> int" where
  "go_mod a b = sgn a * (\<bar>a\<bar> mod \<bar>b\<bar>)"

definition fits_int64 :: "int \<Rightarrow> bool" where
  "fits_int64 x \<longleftrightarrow> - (2 ^ 63) \<le> x \<and> x < 2 ^ 63"

definition int64 :: "int \<Rightarrow> int" where
  "int64 x = (x + 2 ^ 63) mod 2 ^ 64 - 2 ^ 63"

text \<open>
  \<open>make\<close> panics when the requested length is negative or when the memory it asks for
  exceeds what the runtime can address: \<open>maxAlloc\<close>, which is \<open>2 ^ 48\<close> bytes on 64-bit
  Linux. A channel adds the size of its header, 96 bytes. Running out of memory below
  that bound is not modelled.
\<close>

definition maxAlloc :: int where
  "maxAlloc = 2 ^ 48"

definition makeslice_ok :: "int \<Rightarrow> int \<Rightarrow> bool" where
  "makeslice_ok elemsize n \<longleftrightarrow> 0 \<le> n \<and> elemsize * n \<le> maxAlloc"

definition makechan_ok :: "int \<Rightarrow> int \<Rightarrow> bool" where
  "makechan_ok elemsize n \<longleftrightarrow> 0 \<le> n \<and> elemsize * n \<le> maxAlloc - 96"

datatype panic =
    IndexOutOfRange int nat
  | DivideByZero
  | NilDereference
  | MakeOutOfRange int
  | SliceBoundsOutOfRange int


section \<open>The timing wheel (package timeWheel)\<close>

subsection \<open>Data\<close>

text \<open>
  \<open>TaskElement\<close> is the struct of the source; the callback \<open>task\<close> is kept abstract.
  The wheel holds \<open>*list.Element\<close> pointers in two places, the bucket lists and the key
  index, and \<open>execute\<close> mutates the task a pointer designates. Pointers are addresses
  into the store \<open>elems\<close>; \<open>fresh\<close> is the next address \<open>PushBack\<close> allocates. An element
  and the \<open>*TaskElement\<close> it carries are allocated together and are one store cell.
  A bucket (\<open>*list.List\<close>) is the list of the addresses of its elements, front first.
\<close>

type_synonym addr = nat

record 'a TaskElement =
  task :: 'a
  pos :: int
  cycle :: int
  key :: string

record 'a TimeWheel =
  interval :: int
  slots :: "addr list list"
  taskMap :: "(string, addr) mapping"
  curSlot :: int
  elems :: "addr \<rightharpoonup> 'a TaskElement"
  fresh :: addr

definition NewTimeWheel :: "int \<Rightarrow> int \<Rightarrow> 'a TimeWheel" where
  "NewTimeWheel slotNum ival =
     \<lparr> interval = (if ival \<le> 0 then 1000000000 else ival),
       slots = replicate (nat (if slotNum < 10 then 10 else slotNum)) [],
       taskMap = Mapping.empty,
       curSlot = 0,
       elems = Map.empty,
       fresh = 0 \<rparr>"

subsection \<open>Operations of the control loop\<close>

text \<open>\<open>l.PushBack\<close> and \<open>l.Remove\<close> of container/list; \<open>Remove\<close> leaves a list alone
  that does not hold the element.\<close>

definition PushBack :: "addr list \<Rightarrow> addr \<Rightarrow> addr list" where
  "PushBack l e = l @ [e]"

definition Remove :: "addr list \<Rightarrow> addr \<Rightarrow> addr list" where
  "Remove l e = remove1 e l"

definition in_range :: "'a TimeWheel \<Rightarrow> int \<Rightarrow> bool" where
  "in_range t i \<longleftrightarrow> 0 \<le> i \<and> i < int (length (slots t))"

definition removeTask :: "'a TimeWheel \<Rightarrow> string \<Rightarrow> panic + 'a TimeWheel" where
  "removeTask t k =
     (case Mapping.lookup (taskMap t) k of
        None \<Rightarrow> Inr t
      | Some e \<Rightarrow>
          (let t1 = t\<lparr>taskMap := Mapping.delete k (taskMap t)\<rparr> in
           case elems t1 e of
             None \<Rightarrow> Inl NilDereference
           | Some te \<Rightarrow>
               if in_range t1 (pos te)
               then Inr (t1\<lparr>slots := (slots t1)[nat (pos te) :=
                                 Remove (slots t1 ! nat (pos te)) e]\<rparr>)
               else Inl (IndexOutOfRange (pos te) (length (slots t1)))))"

definition addTask :: "'a TimeWheel \<Rightarrow> 'a TaskElement \<Rightarrow> panic + 'a TimeWheel" where
  "addTask t te =
     (if \<not> in_range t (pos te) then Inl (IndexOutOfRange (pos te) (length (slots t)))
      else
        case (if Mapping.lookup (taskMap t) (key te) \<noteq> None
              then removeTask t (key te) else Inr t) of
          Inl p \<Rightarrow> Inl p
        | Inr t1 \<Rightarrow>
            (let e = fresh t1 in
             Inr (t1\<lparr>slots := (slots t1)[nat (pos te) :=
                                 PushBack (slots t1 ! nat (pos te)) e],
                     taskMap := Mapping.update (key te) e (taskMap t1),
                     elems := (elems t1)(e \<mapsto> te),
                     fresh := Suc e\<rparr>)))"

text \<open>
  \<open>execute l\<close> walks the bucket from the front. The walk only ever unlinks the element
  it stands on, after reading its successor, so it visits the elements the bucket held
  when the walk began, in order: the first argument. The second argument is the slot
  whose list \<open>l\<close> is. The result carries the addresses of the tasks handed to a new
  goroutine, in launch order.
\<close>

fun execute :: "addr list \<Rightarrow> nat \<Rightarrow> 'a TimeWheel \<Rightarrow> panic + ('a TimeWheel \<times> addr list)" where
  "execute [] l t = Inr (t, [])"
| "execute (e # es) l t =
     (case elems t e of
        None \<Rightarrow> Inl NilDereference
      | Some te \<Rightarrow>
          if cycle te > 0
          then execute es l (t\<lparr>elems := (elems t)(e \<mapsto> te\<lparr>cycle := cycle te - 1\<rparr>)\<rparr>)
          else
            (case execute es l
                    (t\<lparr>slots := (slots t)[l := Remove (slots t ! l) e],
                       taskMap := Mapping.delete (key te) (taskMap t)\<rparr>) of
               Inl p \<Rightarrow> Inl p
             | Inr (t', launched) \<Rightarrow> Inr (t', e # launched)))"

definition circleIncr :: "'a TimeWheel \<Rightarrow> 'a TimeWheel" where
  "circleIncr t = t\<lparr>curSlot := go_mod (curSlot t + 1) (int (length (slots t)))\<rparr>"

definition tick :: "'a TimeWheel \<Rightarrow> panic + ('a TimeWheel \<times> addr list)" where
  "tick t =
     (if \<not> in_range t (curSlot t)
      then Inl (IndexOutOfRange (curSlot t) (length (slots t)))
      else
        case execute (slots t ! nat (curSlot t)) (nat (curSlot t)) t of
          Inl p \<Rightarrow> Inl p
        | Inr (t', launched) \<Rightarrow> Inr (circleIncr t', launched))"

subsection \<open>The public entry points\<close>

text \<open>
  \<open>delay\<close> is \<open>time.Until(executeAt)\<close> in nanoseconds, negative for an instant in the
  past. The product, the quotients and the sum are computed in \<open>int\<close>, so each wraps
  around at 64 bits; the product is the divisor of the first division, which panics
  when it is zero.
\<close>

definition getPosAndCircle :: "'a TimeWheel \<Rightarrow> int \<Rightarrow> panic + (int \<times> int)" where
  "getPosAndCircle t delay =
     (let n = int (length (slots t));
          d = int64 (interval t * n) in
      if d = 0 then Inl DivideByZero
      else
        let cycle = int64 (go_div delay d);
            pos = go_mod (int64 (curSlot t + int64 (go_div delay (interval t)))) n
        in Inr (pos, cycle))"

definition AddTask :: "'a TimeWheel \<Rightarrow> string \<Rightarrow> 'a \<Rightarrow> int \<Rightarrow> panic + 'a TaskElement" where
  "AddTask t k f delay =
     (case getPosAndCircle t delay of
        Inl p \<Rightarrow> Inl p
      | Inr (p, c) \<Rightarrow> Inr \<lparr>task = f, pos = p, cycle = c, key = k\<rparr>)"

text \<open>
  The control loop \<open>run\<close> serves one request at a time: a tick, a task sent by
  \<open>AddTask\<close>, a key sent by \<open>RemoveTask\<close>, or the stop signal. A panic in a handler is
  recovered at the top of \<open>run\<close>, which then returns: the loop serves nothing more.
  The state of the loop is the wheel, the tasks launched so far and whether the loop
  still runs.
\<close>

datatype 'a request = Tick | Add "'a TaskElement" | Del string | Stop

record 'a loop =
  wheel :: "'a TimeWheel"
  launched :: "addr list"
  running :: bool

definition serve :: "'a loop \<Rightarrow> 'a request \<Rightarrow> 'a loop" where
  "serve s r =
     (if \<not> running s then s
      else case r of
        Stop \<Rightarrow> s\<lparr>running := False\<rparr>
      | Tick \<Rightarrow> (case tick (wheel s) of
                   Inl p \<Rightarrow> s\<lparr>running := False\<rparr>
                 | Inr (t', ls) \<Rightarrow> s\<lparr>wheel := t', launched := launched s @ ls\<rparr>)
      | Add te \<Rightarrow> (case addTask (wheel s) te of
                     Inl p \<Rightarrow> s\<lparr>running := False\<rparr>
                   | Inr t' \<Rightarrow> s\<lparr>wheel := t'\<rparr>)
      | Del k \<Rightarrow> (case removeTask (wheel s) k of
                    Inl p \<Rightarrow> s\<lparr>running := False\<rparr>
                  | Inr t' \<Rightarrow> s\<lparr>wheel := t'\<rparr>))"

definition run :: "'a TimeWheel \<Rightarrow> 'a request list \<Rightarrow> 'a loop" where
  "run t rs = foldl serve \<lparr>wheel = t, launched = [], running = True\<rparr> rs"

subsection \<open>The invariant of the wheel\<close>

text \<open>
  No bucket holds an element twice; an element of bucket \<open>i\<close> has \<open>pos = i\<close> (so it is in
  no other bucket) and the index maps its key to it; every index entry designates an
  element of the bucket its \<open>pos\<close> names, carrying the entry's key.
\<close>

definition bucket_ok :: "'a TimeWheel \<Rightarrow> nat \<Rightarrow> addr \<Rightarrow> bool" where
  "bucket_ok t i e \<longleftrightarrow>
     e < fresh t \<and>
     (case elems t e of
        None \<Rightarrow> False
      | Some te \<Rightarrow> pos te = int i \<and> Mapping.lookup (taskMap t) (key te) = Some e)"

definition index_ok :: "'a TimeWheel \<Rightarrow> string \<Rightarrow> bool" where
  "index_ok t k \<longleftrightarrow>
     (case Mapping.lookup (taskMap t) k of
        None \<Rightarrow> False
      | Some e \<Rightarrow>
          (case elems t e of
             None \<Rightarrow> False
           | Some te \<Rightarrow> key te = k \<and> in_range t (pos te) \<and>
                         e \<in> set (slots t ! nat (pos te))))"

definition wheel_inv :: "'a TimeWheel \<Rightarrow> bool" where
  "wheel_inv t \<longleftrightarrow>
     0 < interval t \<and> in_range t (curSlot t) \<and>
     (\<forall>i < length (slots t).
        distinct (slots t ! i) \<and> (\<forall>e \<in> set (slots t ! i). bucket_ok t i e)) \<and>
     (\<forall>k \<in> Mapping.keys (taskMap t). index_ok t k)"

subsection \<open>Vocabulary for the claims\<close>

text \<open>A task stays in its bucket over a tick when its \<open>cycle\<close> is positive; otherwise it is
  due. \<open>absent\<close> says that an allocated element is linked in no bucket.\<close>

definition stays :: "'a TimeWheel \<Rightarrow> addr \<Rightarrow> bool" where
  "stays t e = (case elems t e of None \<Rightarrow> False | Some te \<Rightarrow> 0 < cycle te)"

definition key_of :: "'a TimeWheel \<Rightarrow> addr \<Rightarrow> string" where
  "key_of t e = key (the (elems t e))"

definition decr :: "'a TaskElement \<Rightarrow> 'a TaskElement" where
  "decr te = te\<lparr>cycle := cycle te - 1\<rparr>"

definition absent :: "'a TimeWheel \<Rightarrow> addr \<Rightarrow> bool" where
  "absent t a \<longleftrightarrow> a < fresh t \<and> (\<forall>i < length (slots t). a \<notin> set (slots t ! i))"

text \<open>
  The invariant in the words of the specification: every key that is in the index or
  on an element of some bucket occurs on exactly one element over all buckets, and the
  index maps the key to that element.
\<close>

definition key_index_exact :: "'a TimeWheel \<Rightarrow> bool" where
  "key_index_exact t \<longleftrightarrow>
     (\<forall>k \<in> Mapping.keys (taskMap t) \<union> key_of t ` set (concat (slots t)).
        case Mapping.lookup (taskMap t) k of
          None \<Rightarrow> False
        | Some e \<Rightarrow> filter (\<lambda>x. key_of t x = k) (concat (slots t)) = [e])"

text \<open>
  A wheel of ten slots and a tick of 100 ms, at slot 0, holding task \<open>a\<close> due after one
  more revolution and task \<open>b\<close> due now, both in slot 0.
\<close>

definition example_wheel :: "nat TimeWheel" where
  "example_wheel =
     \<lparr> interval = 100000000,
       slots = [[0, 1], [], [], [], [], [], [], [], [], []],
       taskMap = Mapping.update ''b'' 1 (Mapping.update ''a'' 0 Mapping.empty),
       curSlot = 0,
       elems = [0 \<mapsto> \<lparr>task = 7, pos = 0, cycle = 1, key = ''a''\<rparr>,
                1 \<mapsto> \<lparr>task = 8, pos = 0, cycle = 0, key = ''b''\<rparr>],
       fresh = 2 \<rparr>"

section \<open>The worker pool (package GoroutinePool)\<close>

subsection \<open>Tasks, configuration and the pool\<close>

text \<open>
  A \<open>Task\<close> is a \<open>func() (interface{}, error)\<close>: a closure that may answer differently
  each time it is called. It is modelled by what its \<open>n\<close>-th call returns, a result and
  an error that may each be \<open>nil\<close> (\<open>None\<close>), and by the time that call runs, in
  nanoseconds. Errors are their messages.
\<close>

record 'r attempt =
  result :: "'r option"
  err :: "string option"
  duration :: int

type_synonym 'r Task = "nat \<Rightarrow> 'r attempt"

text \<open>
  A \<open>Worker\<close> owns a channel of capacity one, \<open>wTaskQueue\<close> (the field \<open>taskQueue\<close> of the
  source, renamed apart from the pool's field). \<open>serial\<close> stands for the identity of the
  worker object: the number of workers the pool had created before it.
\<close>

record 'r Worker =
  serial :: nat
  wTaskQueue :: "'r Task list"

text \<open>
  The pool. The two callbacks are function values that may be \<open>nil\<close>: the fields say
  whether they are set, and a call of one is recorded as a \<open>call\<close>. The lock, the
  condition variable and the context are not state of the model: every step below is
  one critical section. \<open>inHand\<close> is the task \<open>dispatch\<close> has received from the queue and
  not yet passed to a worker; \<open>spawned\<close> counts the workers created so far.
\<close>

record 'r GoroutinePool =
  workers :: "'r Worker list"
  workerStack :: "nat list"
  maxWorkers :: int
  minWorkers :: int
  taskQueue :: "'r Task list"
  taskQueueSize :: int
  retryCount :: int
  timeout :: int
  resultCallback :: bool
  errCallback :: bool
  adjustInterval :: int
  inHand :: "'r Task option"
  spawned :: nat

datatype 'r call = ErrCallback string | ResultCallback "'r option"

text \<open>The options of option.go. \<open>WithLock\<close> replaces the lock and changes no modelled
  state; the argument of \<open>WithResultCallBack\<close> says whether the function passed is
  non-nil. There is no option that sets \<open>errCallback\<close>.\<close>

datatype PoolOption =
    WithLock
  | WithMinWorkers int
  | WithTimeout int
  | WithResultCallBack bool
  | WithRetryCount int
  | WithTaskQueueSize int

fun apply_option :: "PoolOption \<Rightarrow> 'r GoroutinePool \<Rightarrow> 'r GoroutinePool" where
  "apply_option WithLock pool = pool"
| "apply_option (WithMinWorkers n) pool = pool\<lparr>minWorkers := n\<rparr>"
| "apply_option (WithTimeout d) pool = pool\<lparr>timeout := d\<rparr>"
| "apply_option (WithResultCallBack cb) pool = pool\<lparr>resultCallback := cb\<rparr>"
| "apply_option (WithRetryCount n) pool = pool\<lparr>retryCount := n\<rparr>"
| "apply_option (WithTaskQueueSize n) pool = pool\<lparr>taskQueueSize := n\<rparr>"

definition newWorker :: "nat \<Rightarrow> 'r Worker" where
  "newWorker s = \<lparr>serial = s, wTaskQueue = []\<rparr>"

text \<open>The channel holds function values and the two slices hold a pointer and an \<open>int\<close>,
  eight bytes each; \<open>make\<close> panics on a size out of range.\<close>

definition NewGoroutinePool :: "int \<Rightarrow> PoolOption list \<Rightarrow> panic + 'r GoroutinePool" where
  "NewGoroutinePool maxW options =
     (let pool = foldl (\<lambda>p opt. apply_option opt p)
                   \<lparr> workers = [], workerStack = [], maxWorkers = maxW, minWorkers = maxW,
                     taskQueue = [], taskQueueSize = 1000000, retryCount = 0, timeout = 0,
                     resultCallback = False, errCallback = False,
                     adjustInterval = 1000000000, inHand = None, spawned = 0 \<rparr>
                   options
      in if \<not> makechan_ok 8 (taskQueueSize pool) then Inl (MakeOutOfRange (taskQueueSize pool))
         else if \<not> makeslice_ok 8 (minWorkers pool) then Inl (MakeOutOfRange (minWorkers pool))
         else Inr (pool\<lparr> workers := map newWorker [0..<nat (minWorkers pool)],
                         workerStack := [0..<nat (minWorkers pool)],
                         spawned := nat (minWorkers pool) \<rparr>))"

definition GetRunning :: "'r GoroutinePool \<Rightarrow> int" where
  "GetRunning pool = int (length (workers pool)) - int (length (workerStack pool))"

definition GetWorkers :: "'r GoroutinePool \<Rightarrow> int" where
  "GetWorkers pool = int (length (workers pool))"

definition GetTaskQueenSize :: "'r GoroutinePool \<Rightarrow> int" where
  "GetTaskQueenSize pool = taskQueueSize pool"

definition popWorker :: "'r GoroutinePool \<Rightarrow> panic + (nat \<times> 'r GoroutinePool)" where
  "popWorker pool =
     (if workerStack pool = [] then Inl (IndexOutOfRange (- 1) 0)
      else Inr (last (workerStack pool), pool\<lparr>workerStack := butlast (workerStack pool)\<rparr>))"

definition pushWorker :: "'r GoroutinePool \<Rightarrow> nat \<Rightarrow> 'r GoroutinePool" where
  "pushWorker pool workerIndex = pool\<lparr>workerStack := workerStack pool @ [workerIndex]\<rparr>"

subsection \<open>The scaling loop\<close>

text \<open>The loop that creates \<open>newWorkerNum\<close> workers, appending each to \<open>workers\<close> and its
  index to \<open>workerStack\<close>.\<close>

fun grow :: "'r GoroutinePool \<Rightarrow> nat \<Rightarrow> 'r GoroutinePool" where
  "grow pool 0 = pool"
| "grow pool (Suc k) =
     grow (pool\<lparr> workers := workers pool @ [newWorker (spawned pool)],
                 workerStack := workerStack pool @ [length (workers pool)],
                 spawned := Suc (spawned pool) \<rparr>) k"

text \<open>One firing of the ticker in \<open>adjustWorkers\<close>, under the lock. A slice expression
  with a negative bound panics.\<close>

definition adjustWorkers :: "'r GoroutinePool \<Rightarrow> panic + 'r GoroutinePool" where
  "adjustWorkers pool =
     (let n = int (length (workers pool)); q = int (length (taskQueue pool)) in
      if q > go_div (n * 3) 4 \<and> n < maxWorkers pool then
        (let newWorkerNum = min (n * 2) (maxWorkers pool) - n
         in Inr (grow pool (nat newWorkerNum)))
      else if q = 0 \<and> length (workerStack pool) = length (workers pool) \<and> n > minWorkers pool then
        (let removeWorkerNum = go_div (n - minWorkers pool + 1) 2 in
         if n - removeWorkerNum < 0
         then Inl (SliceBoundsOutOfRange (n - removeWorkerNum))
         else Inr (pool\<lparr> workers := take (nat (n - removeWorkerNum)) (workers pool),
                         workerStack := take (nat (int (length (workerStack pool)) - removeWorkerNum))
                                          (sort (workerStack pool)) \<rparr>))
      else Inr pool)"

subsection \<open>The steps of a running pool\<close>

text \<open>
  \<open>Submit\<close> sends on the task queue: it enqueues when the buffer has room, hands the
  task to a waiting \<open>dispatch\<close> directly when the queue is unbuffered, and otherwise
  blocks (the step leaves the pool as it is). \<open>Receive\<close> is \<open>dispatch\<close> taking the next
  task from the queue, \<open>Dispatch\<close> is \<open>dispatch\<close> popping an idle worker and sending it
  the task in hand, which waits while no worker is idle. \<open>Finish i\<close> is worker \<open>i\<close>
  completing the task in its channel and pushing its index. \<open>Adjust\<close> is a firing of
  the scaling ticker.
\<close>

datatype 'r event = Submit "'r Task" | Receive | Dispatch | Finish nat | Adjust

definition pool_step :: "'r GoroutinePool \<Rightarrow> 'r event \<Rightarrow> panic + 'r GoroutinePool" where
  "pool_step pool ev =
     (case ev of
        Submit t \<Rightarrow>
          if int (length (taskQueue pool)) < taskQueueSize pool
          then Inr (pool\<lparr>taskQueue := taskQueue pool @ [t]\<rparr>)
          else if taskQueueSize pool = 0 \<and> inHand pool = None
          then Inr (pool\<lparr>inHand := Some t\<rparr>)
          else Inr pool
      | Receive \<Rightarrow>
          (case (inHand pool, taskQueue pool) of
             (None, t # q) \<Rightarrow> Inr (pool\<lparr>inHand := Some t, taskQueue := q\<rparr>)
           | _ \<Rightarrow> Inr pool)
      | Dispatch \<Rightarrow>
          (case inHand pool of
             None \<Rightarrow> Inr pool
           | Some t \<Rightarrow>
               if workerStack pool = [] then Inr pool
               else
                 (case popWorker pool of
                    Inl p \<Rightarrow> Inl p
                  | Inr (workerIndex, pool1) \<Rightarrow>
                      if workerIndex < length (workers pool1)
                      then Inr (pool1\<lparr> inHand := None,
                                       workers := (workers pool1)[workerIndex :=
                                          (workers pool1 ! workerIndex)\<lparr>wTaskQueue := [t]\<rparr>] \<rparr>)
                      else Inl (IndexOutOfRange (int workerIndex) (length (workers pool1)))))
      | Finish i \<Rightarrow>
          if i < length (workers pool) \<and> wTaskQueue (workers pool ! i) \<noteq> []
          then Inr (pushWorker
                      (pool\<lparr>workers := (workers pool)[i := (workers pool ! i)\<lparr>wTaskQueue := []\<rparr>]\<rparr>) i)
          else Inr pool
      | Adjust \<Rightarrow> adjustWorkers pool)"

fun pool_run :: "'r GoroutinePool \<Rightarrow> 'r event list \<Rightarrow> panic + 'r GoroutinePool" where
  "pool_run pool [] = Inr pool"
| "pool_run pool (ev # evs) =
     (case pool_step pool ev of Inl p \<Rightarrow> Inl p | Inr pool' \<Rightarrow> pool_run pool' evs)"

text \<open>
  The invariant of a running pool: the idle stack holds distinct indices of workers
  whose channels are empty, the workers are in creation order, and \<open>minWorkers\<close> is not
  negative.
\<close>

definition pool_inv :: "'r GoroutinePool \<Rightarrow> bool" where
  "pool_inv pool \<longleftrightarrow>
     0 \<le> minWorkers pool \<and>
     distinct (workerStack pool) \<and>
     (\<forall>i \<in> set (workerStack pool).
        i < length (workers pool) \<and> wTaskQueue (workers pool ! i) = []) \<and>
     (\<forall>i < length (workers pool). serial (workers pool ! i) < spawned pool) \<and>
     sorted_wrt (<) (map serial (workers pool))"

subsection \<open>The worker\<close>

text \<open>
  \<open>executeTaskWithTimeout\<close> runs the task in a goroutine and waits for the result or
  for the deadline. The goroutine offers the result and the error in one \<open>select\<close>, which
  performs a single send. When the deadline passes first the call returns the timeout
  error. When the task is done first, the caller receives the result and then waits for
  a second value on \<open>errChan\<close> that the goroutine, already past its \<open>select\<close>, never
  sends: the call does not return (\<open>None\<close>).
\<close>

definition executeTaskWithoutTimeout :: "'r Task \<Rightarrow> nat \<Rightarrow> 'r option \<times> string option" where
  "executeTaskWithoutTimeout t i = (result (t i), err (t i))"

definition executeTaskWithTimeout ::
  "'r Task \<Rightarrow> 'r GoroutinePool \<Rightarrow> nat \<Rightarrow> ('r option \<times> string option) option" where
  "executeTaskWithTimeout t pool i =
     (if duration (t i) < timeout pool then None
      else Some (None, Some ''task timeout''))"

text \<open>The body of the retry loop up to the test of \<open>err\<close>: attempt number \<open>i\<close>.\<close>

definition attempt_of :: "'r Task \<Rightarrow> 'r GoroutinePool \<Rightarrow> nat \<Rightarrow> ('r option \<times> string option) option" where
  "attempt_of t pool i =
     (if timeout pool > 0 then executeTaskWithTimeout t pool i
      else Some (executeTaskWithoutTimeout t i))"

text \<open>
  \<open>executeTask\<close>: the loop \<open>for i := 0; i <= pool.retryCount; i++\<close>, from \<open>i\<close> on. The
  first component is what the function returns, \<open>None\<close> when it never returns; the
  second counts the attempts made.
\<close>

function executeTask_from ::
  "'r Task \<Rightarrow> 'r GoroutinePool \<Rightarrow> nat \<Rightarrow> ('r option \<times> string option) option \<times> nat" where
  "executeTask_from t pool i =
     (if int i \<le> retryCount pool then
        (case attempt_of t pool i of
           None \<Rightarrow> (None, 1)
         | Some (res, e) \<Rightarrow>
             if e = None \<or> int i = retryCount pool then (Some (res, e), 1)
             else (case executeTask_from t pool (Suc i) of (r, n) \<Rightarrow> (r, Suc n)))
      else (Some (None, None), 0))"
  by pat_completeness auto
termination
  by (relation "measure (\<lambda>(t, pool, i). nat (retryCount pool + 1 - int i))") auto

declare executeTask_from.simps [simp del]

definition executeTask ::
  "'r Task \<Rightarrow> 'r GoroutinePool \<Rightarrow> ('r option \<times> string option) option \<times> nat" where
  "executeTask t pool = executeTask_from t pool 0"

definition handleResult :: "'r option \<Rightarrow> string option \<Rightarrow> 'r GoroutinePool \<Rightarrow> 'r call list" where
  "handleResult res e pool =
     (if e \<noteq> None \<and> errCallback pool then [ErrCallback (the e)]
      else if resultCallback pool then [ResultCallback res]
      else [])"

text \<open>What the goroutine of \<open>Worker.start\<close> does with one task: the callbacks it calls
  before it pushes its index, or \<open>None\<close> when \<open>executeTask\<close> does not return. (A task in
  the model is never the \<open>nil\<close> function, which the goroutine skips.)\<close>

definition start :: "'r Task \<Rightarrow> 'r GoroutinePool \<Rightarrow> 'r call list option" where
  "start t pool =
     (case fst (executeTask t pool) of
        None \<Rightarrow> None
      | Some (res, e) \<Rightarrow> Some (handleResult res e pool))"

subsection \<open>Vocabulary for the claims\<close>

text \<open>What no step of a running pool changes, and the bounds on the number of workers.\<close>

definition same_config :: "'r GoroutinePool \<Rightarrow> 'r GoroutinePool \<Rightarrow> bool" where
  "same_config p p' \<longleftrightarrow>
     maxWorkers p' = maxWorkers p \<and> minWorkers p' = minWorkers p \<and>
     taskQueueSize p' = taskQueueSize p \<and> retryCount p' = retryCount p \<and>
     timeout p' = timeout p \<and> resultCallback p' = resultCallback p \<and>
     errCallback p' = errCallback p"

definition within_bounds :: "'r GoroutinePool \<Rightarrow> bool" where
  "within_bounds p \<longleftrightarrow>
     minWorkers p \<le> int (length (workers p)) \<and> int (length (workers p)) \<le> maxWorkers p"

text \<open>The queue capacity the options ask for: the last \<open>WithTaskQueueSize\<close>, or the default.\<close>

definition configuredQueueSize :: "PoolOption list \<Rightarrow> int" where
  "configuredQueueSize opts =
     foldl (\<lambda>s opt. case opt of WithTaskQueueSize n \<Rightarrow> n | _ \<Rightarrow> s) 1000000 opts"

text \<open>
  Pools and tasks to evaluate on. \<open>failing_task\<close> fails at every call, \<open>flaky_task\<close> fails
  twice and then succeeds. \<open>result_only_pool\<close> is \<open>NewGoroutinePool(1,
  WithResultCallBack(f))\<close>, \<open>oversized_pool\<close> is \<open>NewGoroutinePool(2, WithMinWorkers(5))\<close>,
  \<open>idle_pool\<close> has grown to four idle workers over a floor of one. \<open>quick_task\<close> succeeds
  at once, and \<open>timeout_pool\<close> is \<open>NewGoroutinePool(1, WithTimeout(time.Second),
  WithResultCallBack(f))\<close>.
\<close>

definition failing_task :: "nat Task" where
  "failing_task i = \<lparr>result = None, err = Some ''boom'', duration = 0\<rparr>"

definition flaky_task :: "nat Task" where
  "flaky_task i = (if i < 2 then \<lparr>result = None, err = Some ''boom'', duration = 0\<rparr>
                   else \<lparr>result = Some 42, err = None, duration = 0\<rparr>)"

definition result_only_pool :: "nat GoroutinePool" where
  "result_only_pool =
     \<lparr> workers = [\<lparr>serial = 0, wTaskQueue = []\<rparr>], workerStack = [0], maxWorkers = 1,
       minWorkers = 1, taskQueue = [], taskQueueSize = 1000000, retryCount = 0, timeout = 0,
       resultCallback = True, errCallback = False, adjustInterval = 1000000000,
       inHand = None, spawned = 1 \<rparr>"

definition oversized_pool :: "nat GoroutinePool" where
  "oversized_pool =
     \<lparr> workers = map newWorker [0..<5], workerStack = [0..<5], maxWorkers = 2,
       minWorkers = 5, taskQueue = [], taskQueueSize = 1000000, retryCount = 0, timeout = 0,
       resultCallback = False, errCallback = False, adjustInterval = 1000000000,
       inHand = None, spawned = 5 \<rparr>"

definition idle_pool :: "nat GoroutinePool" where
  "idle_pool =
     \<lparr> workers = map newWorker [0..<4], workerStack = [2, 0, 3, 1], maxWorkers = 4,
       minWorkers = 1, taskQueue = [], taskQueueSize = 1000000, retryCount = 0, timeout = 0,
       resultCallback = False, errCallback = False, adjustInterval = 1000000000,
       inHand = None, spawned = 4 \<rparr>"

definition quick_task :: "nat Task" where
  "quick_task i = \<lparr>result = Some 42, err = None, duration = 0\<rparr>"

definition timeout_pool :: "nat GoroutinePool" where
  "timeout_pool = result_only_pool\<lparr>timeout := 1000000000\<rparr>"

section \<open>Properties of the timing wheel\<close>

subsection \<open>Arithmetic and list facts\<close>

lemma go_mod_nonneg: "0 \<le> a \<Longrightarrow> go_mod a n = a mod \<bar>n\<bar>"
  by (cases "a = 0") (simp_all add: go_mod_def)

lemma go_div_nonneg: "0 \<le> a \<Longrightarrow> 0 < b \<Longrightarrow> go_div a b = a div b"
  by (cases "a = 0") (simp_all add: go_div_def)

lemma go_mod_neg_iff: "0 < n \<Longrightarrow> go_mod a n < 0 \<longleftrightarrow> a < 0 \<and> \<not> n dvd a"
proof -
  assume n: "0 < n"
  have 1: "0 \<le> \<bar>a\<bar> mod n" using n by simp
  have 2: "\<bar>a\<bar> mod n = 0 \<longleftrightarrow> n dvd a" by (simp add: mod_eq_0_iff_dvd)
  show ?thesis
  proof (cases "a < 0")
    case True
    then have "go_mod a n = - (\<bar>a\<bar> mod n)" using n by (simp add: go_mod_def)
    with 1 2 True show ?thesis by linarith
  next
    case False
    then have "go_mod a n = a mod n" using n go_mod_nonneg[of a n] by simp
    moreover have "0 \<le> a mod n" using n by simp
    ultimately show ?thesis using False by linarith
  qed
qed

lemma go_mod_bounds: "0 < n \<Longrightarrow> - n < go_mod a n \<and> go_mod a n < n"
proof -
  assume n: "0 < n"
  have 1: "0 \<le> \<bar>a\<bar> mod n" "\<bar>a\<bar> mod n < n" using n by simp_all
  have "go_mod a n = \<bar>a\<bar> mod n \<or> go_mod a n = - (\<bar>a\<bar> mod n) \<or> go_mod a n = 0"
    using n by (auto simp: go_mod_def sgn_if)
  with 1 n show ?thesis by linarith
qed

lemma NewTimeWheel_inv: "wheel_inv (NewTimeWheel s i)"
  by (auto simp: wheel_inv_def NewTimeWheel_def in_range_def)

lemma nth_update_if: "i < length xs \<Longrightarrow> (xs[i := x]) ! j = (if j = i then x else xs ! j)"
  by (simp add: nth_list_update)

lemma bucket_unique:
  assumes "wheel_inv t" "i < length (slots t)" "j < length (slots t)"
      "e \<in> set (slots t ! i)" "e \<in> set (slots t ! j)"
  shows "i = j"
proof -
  from assms have "bucket_ok t i e" "bucket_ok t j e" by (auto simp: wheel_inv_def)
  then show ?thesis by (auto simp: bucket_ok_def split: option.splits)
qed

lemma unlink_inv:
  assumes inv: "wheel_inv t" and i: "i < length (slots t)" and e: "e \<in> set (slots t ! i)"
    and te: "elems t e = Some te"
  shows "wheel_inv (t\<lparr>slots := (slots t)[i := remove1 e (slots t ! i)],
                      taskMap := Mapping.delete (key te) (taskMap t)\<rparr>)"
    (is "wheel_inv ?t'")
proof -
  have be: "bucket_ok t i e" using inv i e by (simp add: wheel_inv_def)
  have lk: "Mapping.lookup (taskMap t) (key te) = Some e" "pos te = int i"
    using be te by (auto simp: bucket_ok_def)
  have di: "distinct (slots t ! i)" using inv i by (simp add: wheel_inv_def)
  have A: "\<forall>j < length (slots ?t'). distinct (slots ?t' ! j) \<and> (\<forall>x \<in> set (slots ?t' ! j). bucket_ok ?t' j x)"
  proof (intro allI impI conjI ballI)
    fix j assume j: "j < length (slots ?t')"
    then have j': "j < length (slots t)" by simp
    show "distinct (slots ?t' ! j)"
      using inv i j' by (auto simp: wheel_inv_def nth_update_if)
    fix x assume x: "x \<in> set (slots ?t' ! j)"
    have xin: "x \<in> set (slots t ! j)" and xne: "x \<noteq> e"
    proof -
      show "x \<in> set (slots t ! j)" using x i j'
        by (auto simp: nth_update_if split: if_splits dest: set_mp[OF set_remove1_subset])
      show "x \<noteq> e"
      proof
        assume "x = e"
        show False
        proof (cases "j = i")
          case True
          with x i di \<open>x = e\<close> show False by (simp add: nth_update_if)
        next
          case False
          with x i j' \<open>x = e\<close> have "e \<in> set (slots t ! j)" by (simp add: nth_update_if)
          with bucket_unique[OF inv i j' e] False show False by simp
        qed
      qed
    qed
    have bx: "bucket_ok t j x" using inv j' xin by (simp add: wheel_inv_def)
    then obtain tx where tx: "elems t x = Some tx" "pos tx = int j"
        "Mapping.lookup (taskMap t) (key tx) = Some x" "x < fresh t"
      by (auto simp: bucket_ok_def split: option.splits)
    have "key tx \<noteq> key te" using tx lk xne by auto
    then show "bucket_ok ?t' j x" using tx by (simp add: bucket_ok_def)
  qed
  have B: "\<forall>k \<in> Mapping.keys (taskMap ?t'). index_ok ?t' k"
  proof
    fix k assume "k \<in> Mapping.keys (taskMap ?t')"
    then have k: "k \<in> Mapping.keys (taskMap t)" "k \<noteq> key te" by auto
    then have "index_ok t k" using inv by (simp add: wheel_inv_def)
    then obtain x tx where x: "Mapping.lookup (taskMap t) k = Some x" "elems t x = Some tx"
        "key tx = k" "in_range t (pos tx)" "x \<in> set (slots t ! nat (pos tx))"
      by (auto simp: index_ok_def split: option.splits)
    have "x \<noteq> e" using x te k by auto
    then have "x \<in> set (slots ?t' ! nat (pos tx))" using x i
      by (auto simp: nth_update_if in_range_def)
    then show "index_ok ?t' k" using x k
      by (simp add: index_ok_def in_range_def)
  qed
  have C: "0 < interval ?t'" "in_range ?t' (curSlot ?t')"
    using inv by (simp_all add: wheel_inv_def in_range_def)
  show ?thesis unfolding wheel_inv_def using A B C by blast
qed

lemma removeTask_inv:
  assumes "wheel_inv t"
  shows "\<exists>t'. removeTask t k = Inr t' \<and> wheel_inv t'"
proof (cases "Mapping.lookup (taskMap t) k")
  case None
  then show ?thesis using assms by (simp add: removeTask_def)
next
  case (Some e)
  then have "k \<in> Mapping.keys (taskMap t)" by (simp add: keys_dom_lookup domI)
  with assms have "index_ok t k" by (simp add: wheel_inv_def)
  with Some obtain te where te: "elems t e = Some te" "key te = k" "in_range t (pos te)"
      "e \<in> set (slots t ! nat (pos te))"
    by (auto simp: index_ok_def split: option.splits)
  have i: "nat (pos te) < length (slots t)" using te by (auto simp: in_range_def)
  have "removeTask t k = Inr (t\<lparr>slots := (slots t)[nat (pos te) := remove1 e (slots t ! nat (pos te))],
                      taskMap := Mapping.delete (key te) (taskMap t)\<rparr>)"
    using Some te by (simp add: removeTask_def in_range_def Remove_def)
  with unlink_inv[OF assms i te(4) te(1)] show ?thesis by simp
qed

lemma lookup_delete_if:
  "Mapping.lookup (Mapping.delete k m) k' = (if k = k' then None else Mapping.lookup m k')"
  by simp

lemma remove1_filter: "distinct xs \<Longrightarrow> remove1 e xs = filter (\<lambda>x. x \<noteq> e) xs"
  by (simp add: distinct_remove1_removeAll removeAll_filter_not_eq) metis

lemma execute_char:
  assumes "distinct es" "\<forall>e\<in>set es. elems t e \<noteq> None" "l < length (slots t)"
    "distinct (slots t ! l)"
  shows "\<exists>t'. execute es l t = Inr (t', filter (\<lambda>e. \<not> stays t e) es) \<and>
     interval t' = interval t \<and> curSlot t' = curSlot t \<and> fresh t' = fresh t \<and>
     slots t' = (slots t)[l := filter (\<lambda>x. x \<notin> set (filter (\<lambda>e. \<not> stays t e) es)) (slots t ! l)] \<and>
     (\<forall>a. elems t' a = (if a \<in> set es \<and> stays t a then map_option decr (elems t a) else elems t a)) \<and>
     (\<forall>k. Mapping.lookup (taskMap t') k =
        (if k \<in> key_of t ` set (filter (\<lambda>e. \<not> stays t e) es) then None
         else Mapping.lookup (taskMap t) k))"
  using assms
proof (induction es arbitrary: t)
  case Nil
  then show ?case by (simp add: list_update_same_conv)
next
  case (Cons e es)
  then obtain te where te: "elems t e = Some te" by auto
  have ne: "e \<notin> set es" and des: "distinct es" using Cons.prems by auto
  show ?case
  proof (cases "0 < cycle te")
    case True
    let ?t1 = "t\<lparr>elems := (elems t)(e \<mapsto> te\<lparr>cycle := cycle te - 1\<rparr>)\<rparr>"
    have st: "\<And>x. x \<in> set es \<Longrightarrow> stays ?t1 x = stays t x"
      using ne by (auto simp: stays_def)
    have ko: "\<And>x. x \<in> set es \<Longrightarrow> key_of ?t1 x = key_of t x"
      using ne by (auto simp: key_of_def)
    have f: "filter (\<lambda>e. \<not> stays ?t1 e) es = filter (\<lambda>e. \<not> stays t e) es"
      by (rule filter_cong) (auto simp: st)
    have kf: "key_of ?t1 ` set (filter (\<lambda>e. \<not> stays t e) es) = key_of t ` set (filter (\<lambda>e. \<not> stays t e) es)"
      by (rule image_cong) (auto simp: ko)
    have "\<exists>t'. execute es l ?t1 = Inr (t', filter (\<lambda>e. \<not> stays ?t1 e) es) \<and>
     interval t' = interval ?t1 \<and> curSlot t' = curSlot ?t1 \<and> fresh t' = fresh ?t1 \<and>
     slots t' = (slots ?t1)[l := filter (\<lambda>x. x \<notin> set (filter (\<lambda>e. \<not> stays ?t1 e) es)) (slots ?t1 ! l)] \<and>
     (\<forall>a. elems t' a = (if a \<in> set es \<and> stays ?t1 a then map_option decr (elems ?t1 a) else elems ?t1 a)) \<and>
     (\<forall>k. Mapping.lookup (taskMap t') k =
        (if k \<in> key_of ?t1 ` set (filter (\<lambda>e. \<not> stays ?t1 e) es) then None
         else Mapping.lookup (taskMap ?t1) k))"
      using Cons.prems des by (intro Cons.IH) auto
    then obtain t' where t': "execute es l ?t1 = Inr (t', filter (\<lambda>e. \<not> stays t e) es)"
      "interval t' = interval t" "curSlot t' = curSlot t" "fresh t' = fresh t"
      "slots t' = (slots t)[l := filter (\<lambda>x. x \<notin> set (filter (\<lambda>e. \<not> stays t e) es)) (slots t ! l)]"
      "\<And>a. elems t' a = (if a \<in> set es \<and> stays ?t1 a then map_option decr (elems ?t1 a) else elems ?t1 a)"
      "\<And>k. Mapping.lookup (taskMap t') k =
        (if k \<in> key_of t ` set (filter (\<lambda>e. \<not> stays t e) es) then None
         else Mapping.lookup (taskMap t) k)"
      unfolding f kf by auto
    have se: "stays t e" using te True by (simp add: stays_def)
    have el: "\<And>a. elems t' a = (if a \<in> set (e # es) \<and> stays t a then map_option decr (elems t a) else elems t a)"
      using ne te se by (auto simp: t'(6) st decr_def)
    show ?thesis
      apply (rule exI[of _ t'])
      using te True se t'(1-5) t'(7) el by simp
  next
    case False
    let ?t1 = "t\<lparr>slots := (slots t)[l := Remove (slots t ! l) e],
                       taskMap := Mapping.delete (key te) (taskMap t)\<rparr>"
    have st: "\<And>x. stays ?t1 x = stays t x" by (simp add: stays_def)
    have ko: "\<And>x. key_of ?t1 x = key_of t x" by (simp add: key_of_def)
    have "\<exists>t'. execute es l ?t1 = Inr (t', filter (\<lambda>e. \<not> stays ?t1 e) es) \<and>
     interval t' = interval ?t1 \<and> curSlot t' = curSlot ?t1 \<and> fresh t' = fresh ?t1 \<and>
     slots t' = (slots ?t1)[l := filter (\<lambda>x. x \<notin> set (filter (\<lambda>e. \<not> stays ?t1 e) es)) (slots ?t1 ! l)] \<and>
     (\<forall>a. elems t' a = (if a \<in> set es \<and> stays ?t1 a then map_option decr (elems ?t1 a) else elems ?t1 a)) \<and>
     (\<forall>k. Mapping.lookup (taskMap t') k =
        (if k \<in> key_of ?t1 ` set (filter (\<lambda>e. \<not> stays ?t1 e) es) then None
         else Mapping.lookup (taskMap ?t1) k))"
      using Cons.prems des by (intro Cons.IH) (auto simp: Remove_def)
    then obtain t' where t': "execute es l ?t1 = Inr (t', filter (\<lambda>e. \<not> stays t e) es)"
      "interval t' = interval t" "curSlot t' = curSlot t" "fresh t' = fresh t"
      "slots t' = (slots ?t1)[l := filter (\<lambda>x. x \<notin> set (filter (\<lambda>e. \<not> stays t e) es)) (slots ?t1 ! l)]"
      "\<And>a. elems t' a = (if a \<in> set es \<and> stays t a then map_option decr (elems t a) else elems t a)"
      "\<And>k. Mapping.lookup (taskMap t') k =
        (if k \<in> key_of t ` set (filter (\<lambda>e. \<not> stays t e) es) then None
         else Mapping.lookup (taskMap ?t1) k)"
      unfolding st ko by auto
    have se: "\<not> stays t e" using te False by (simp add: stays_def)
    have ke: "key_of t e = key te" using te by (simp add: key_of_def)
    have sl: "slots t' = (slots t)[l := filter (\<lambda>x. x \<notin> set (filter (\<lambda>e. \<not> stays t e) (e # es))) (slots t ! l)]"
      using Cons.prems(3,4) se
      by (simp add: t'(5) Remove_def remove1_filter conj_commute)
    have el: "\<And>a. elems t' a = (if a \<in> set (e # es) \<and> stays t a then map_option decr (elems t a) else elems t a)"
      using se by (auto simp: t'(6))
    have tm: "\<And>k. Mapping.lookup (taskMap t') k =
        (if k \<in> key_of t ` set (filter (\<lambda>e. \<not> stays t e) (e # es)) then None
         else Mapping.lookup (taskMap t) k)"
      using se ke by (auto simp: t'(7))
    show ?thesis
      apply (rule exI[of _ t'])
      using te False se t'(1-4) sl el tm by simp
  qed
qed

lemma decr_inv:
  assumes inv: "wheel_inv t" and te: "elems t e = Some te"
  shows "wheel_inv (t\<lparr>elems := (elems t)(e \<mapsto> te\<lparr>cycle := cycle te - 1\<rparr>)\<rparr>)"
proof -
  have "\<And>i x. bucket_ok t i x \<Longrightarrow> bucket_ok (t\<lparr>elems := (elems t)(e \<mapsto> te\<lparr>cycle := cycle te - 1\<rparr>)\<rparr>) i x"
    using te by (auto simp: bucket_ok_def split: option.splits)
  moreover have "\<And>k. index_ok t k \<Longrightarrow> index_ok (t\<lparr>elems := (elems t)(e \<mapsto> te\<lparr>cycle := cycle te - 1\<rparr>)\<rparr>) k"
    using te by (auto simp: index_ok_def in_range_def split: option.splits)
  ultimately show ?thesis using inv by (simp add: wheel_inv_def in_range_def)
qed

lemma execute_inv:
  assumes "wheel_inv t" "l < length (slots t)" "set es \<subseteq> set (slots t ! l)" "distinct es"
    "execute es l t = Inr (t', ls)"
  shows "wheel_inv t'"
  using assms
proof (induction es arbitrary: t ls)
  case Nil
  then show ?case by simp
next
  case (Cons e es)
  from Cons.prems have ein: "e \<in> set (slots t ! l)" by simp
  with Cons.prems have "bucket_ok t l e" by (simp add: wheel_inv_def)
  then obtain te where te: "elems t e = Some te" by (auto simp: bucket_ok_def split: option.splits)
  show ?case
  proof (cases "0 < cycle te")
    case True
    let ?t1 = "t\<lparr>elems := (elems t)(e \<mapsto> te\<lparr>cycle := cycle te - 1\<rparr>)\<rparr>"
    have "execute es l ?t1 = Inr (t', ls)" using Cons.prems(5) te True by simp
    moreover have "wheel_inv ?t1" by (rule decr_inv[OF Cons.prems(1) te])
    ultimately show ?thesis using Cons.prems by (intro Cons.IH[of ?t1 ls]) auto
  next
    case False
    let ?t1 = "t\<lparr>slots := (slots t)[l := Remove (slots t ! l) e],
                       taskMap := Mapping.delete (key te) (taskMap t)\<rparr>"
    from Cons.prems(5) te False obtain ls' where ex: "execute es l ?t1 = Inr (t', ls')"
      by (auto split: sum.splits)
    have inv1: "wheel_inv ?t1"
      using unlink_inv[OF Cons.prems(1,2) ein te] by (simp add: Remove_def)
    have "distinct (slots t ! l)" using Cons.prems(1,2) by (simp add: wheel_inv_def)
    then have "set es \<subseteq> set (slots ?t1 ! l)"
      using Cons.prems(2,3,4) by (auto simp: Remove_def)
    with inv1 ex show ?thesis using Cons.prems by (intro Cons.IH[of ?t1 ls']) auto
  qed
qed

lemma circleIncr_inv: "wheel_inv t \<Longrightarrow> wheel_inv (circleIncr t)"
proof -
  assume inv: "wheel_inv t"
  then have c: "0 \<le> curSlot t" "curSlot t < int (length (slots t))"
    by (simp_all add: wheel_inv_def in_range_def)
  then have "go_mod (curSlot t + 1) (int (length (slots t))) = (curSlot t + 1) mod int (length (slots t))"
    by (simp add: go_mod_nonneg)
  moreover have "0 \<le> (curSlot t + 1) mod int (length (slots t))"
     "(curSlot t + 1) mod int (length (slots t)) < int (length (slots t))"
  proof -
    have "0 < int (length (slots t))" using c by linarith
    then show "0 \<le> (curSlot t + 1) mod int (length (slots t))"
     "(curSlot t + 1) mod int (length (slots t)) < int (length (slots t))"
      by (rule pos_mod_sign, rule pos_mod_bound)
  qed
  moreover have "\<And>i x. bucket_ok (circleIncr t) i x = bucket_ok t i x"
    by (simp add: bucket_ok_def circleIncr_def cong: option.case_cong)
  moreover have "\<And>k. index_ok (circleIncr t) k = index_ok t k"
    by (simp add: index_ok_def circleIncr_def in_range_def cong: option.case_cong)
  ultimately show ?thesis using inv
    by (simp add: wheel_inv_def in_range_def circleIncr_def)
qed

lemma bucket_elems:
  assumes "wheel_inv t" "l < length (slots t)"
  shows "distinct (slots t ! l)" "\<forall>e\<in>set (slots t ! l). elems t e \<noteq> None"
  using assms by (auto simp: wheel_inv_def bucket_ok_def split: option.splits)

lemma tick_inv:
  assumes "wheel_inv t"
  shows "\<exists>t' ls. tick t = Inr (t', ls) \<and> wheel_inv t'"
proof -
  let ?c = "nat (curSlot t)"
  have r: "in_range t (curSlot t)" and c: "?c < length (slots t)"
    using assms by (auto simp: wheel_inv_def in_range_def)
  from execute_char[OF bucket_elems(1)[OF assms c] bucket_elems(2)[OF assms c] c bucket_elems(1)[OF assms c]]
  obtain t1 ls where ex: "execute (slots t ! ?c) ?c t = Inr (t1, ls)" by blast
  have "wheel_inv t1"
    by (rule execute_inv[OF assms c _ bucket_elems(1)[OF assms c] ex]) simp
  then have "wheel_inv (circleIncr t1)" by (rule circleIncr_inv)
  moreover have "tick t = Inr (circleIncr t1, ls)" using r ex by (simp add: tick_def)
  ultimately show ?thesis by blast
qed

lemma link_inv:
  assumes inv: "wheel_inv t" and nk: "Mapping.lookup (taskMap t) (key te) = None"
    and r: "in_range t (pos te)"
  shows "wheel_inv (t\<lparr>slots := (slots t)[nat (pos te) := PushBack (slots t ! nat (pos te)) (fresh t)],
                     taskMap := Mapping.update (key te) (fresh t) (taskMap t),
                     elems := (elems t)(fresh t \<mapsto> te),
                     fresh := Suc (fresh t)\<rparr>)" (is "wheel_inv ?t'")
proof -
  let ?p = "nat (pos te)"
  have p: "?p < length (slots t)" "int ?p = pos te" using r by (auto simp: in_range_def)
  have fr: "\<And>j x. j < length (slots t) \<Longrightarrow> x \<in> set (slots t ! j) \<Longrightarrow> x < fresh t"
    using inv by (auto simp: wheel_inv_def bucket_ok_def)
  have A: "\<forall>j < length (slots ?t'). distinct (slots ?t' ! j) \<and> (\<forall>x \<in> set (slots ?t' ! j). bucket_ok ?t' j x)"
  proof (intro allI impI conjI ballI)
    fix j assume "j < length (slots ?t')"
    then have j: "j < length (slots t)" by simp
    have dj: "distinct (slots t ! j)" using inv j by (simp add: wheel_inv_def)
    show "distinct (slots ?t' ! j)"
      using dj p j fr[OF j] by (auto simp: nth_update_if PushBack_def)
    fix x assume x: "x \<in> set (slots ?t' ! j)"
    show "bucket_ok ?t' j x"
    proof (cases "x = fresh t")
      case True
      have "j = ?p"
      proof (rule ccontr)
        assume "j \<noteq> ?p"
        with x p j True have "fresh t \<in> set (slots t ! j)" by (simp add: nth_update_if)
        with fr[OF j] show False by blast
      qed
      with True p show ?thesis by (simp add: bucket_ok_def)
    next
      case False
      with x p j have xin: "x \<in> set (slots t ! j)"
        by (auto simp: nth_update_if PushBack_def split: if_splits)
      then have "bucket_ok t j x" using inv j by (simp add: wheel_inv_def)
      then obtain tx where tx: "elems t x = Some tx" "pos tx = int j"
        "Mapping.lookup (taskMap t) (key tx) = Some x" "x < fresh t"
        by (auto simp: bucket_ok_def split: option.splits)
      have "key tx \<noteq> key te" using tx nk by auto
      then show ?thesis using tx False by (simp add: bucket_ok_def)
    qed
  qed
  have B: "\<forall>k \<in> Mapping.keys (taskMap ?t'). index_ok ?t' k"
  proof
    fix k assume k: "k \<in> Mapping.keys (taskMap ?t')"
    show "index_ok ?t' k"
    proof (cases "k = key te")
      case True
      then show ?thesis using p r by (simp add: index_ok_def in_range_def PushBack_def)
    next
      case False
      with k have "k \<in> Mapping.keys (taskMap t)" by simp
      then have "index_ok t k" using inv by (simp add: wheel_inv_def)
      then obtain x tx where x: "Mapping.lookup (taskMap t) k = Some x" "elems t x = Some tx"
        "key tx = k" "in_range t (pos tx)" "x \<in> set (slots t ! nat (pos tx))"
        by (auto simp: index_ok_def split: option.splits)
      have "nat (pos tx) < length (slots t)" using x(4) by (auto simp: in_range_def)
      from fr[OF this x(5)] have xf: "x \<noteq> fresh t" by simp
      have "x \<in> set (slots ?t' ! nat (pos tx))" using x p
        by (auto simp: nth_update_if in_range_def PushBack_def)
      then show ?thesis using x False xf
        by (simp add: index_ok_def in_range_def)
    qed
  qed
  have C: "0 < interval ?t'" "in_range ?t' (curSlot ?t')"
    using inv by (simp_all add: wheel_inv_def in_range_def)
  show ?thesis unfolding wheel_inv_def using A B C by blast
qed

lemma nth_update_cases: "(xs[l := y]) ! j = (if l = j \<and> l < length xs then y else xs ! j)"
  by (cases "l < length xs") (auto simp: nth_list_update list_update_beyond)

lemma removeTask_Some:
  assumes "wheel_inv t" "Mapping.lookup (taskMap t) k = Some e"
  shows "\<exists>te. elems t e = Some te \<and> key te = k \<and> in_range t (pos te) \<and>
     e \<in> set (slots t ! nat (pos te)) \<and> e < fresh t \<and>
     removeTask t k = Inr (t\<lparr>slots := (slots t)[nat (pos te) := remove1 e (slots t ! nat (pos te))],
                      taskMap := Mapping.delete k (taskMap t)\<rparr>)"
proof -
  from assms(2) have "k \<in> Mapping.keys (taskMap t)" by (simp add: keys_dom_lookup domI)
  with assms have "index_ok t k" by (simp add: wheel_inv_def)
  with assms(2) obtain te where te: "elems t e = Some te" "key te = k" "in_range t (pos te)"
      "e \<in> set (slots t ! nat (pos te))"
    by (auto simp: index_ok_def split: option.splits)
  have i: "nat (pos te) < length (slots t)" using te by (auto simp: in_range_def)
  with assms(1) te(4) have "bucket_ok t (nat (pos te)) e" by (simp add: wheel_inv_def)
  then have "e < fresh t" by (simp add: bucket_ok_def)
  moreover have "removeTask t k = Inr (t\<lparr>slots := (slots t)[nat (pos te) := remove1 e (slots t ! nat (pos te))],
                      taskMap := Mapping.delete k (taskMap t)\<rparr>)"
    using assms(2) te by (simp add: removeTask_def in_range_def Remove_def)
  ultimately show ?thesis using te by blast
qed

lemma addTask_char:
  assumes inv: "wheel_inv t" and r: "in_range t (pos te)"
  shows "\<exists>t1. wheel_inv t1 \<and> Mapping.lookup (taskMap t1) (key te) = None \<and>
     fresh t1 = fresh t \<and> elems t1 = elems t \<and> length (slots t1) = length (slots t) \<and>
     addTask t te = Inr (t1\<lparr>slots := (slots t1)[nat (pos te) :=
                                 PushBack (slots t1 ! nat (pos te)) (fresh t)],
                     taskMap := Mapping.update (key te) (fresh t) (taskMap t1),
                     elems := (elems t)(fresh t \<mapsto> te),
                     fresh := Suc (fresh t)\<rparr>)"
proof (cases "Mapping.lookup (taskMap t) (key te)")
  case None
  then show ?thesis using inv r by (intro exI[of _ t]) (simp add: addTask_def Let_def)
next
  case (Some e)
  from removeTask_Some[OF inv Some] obtain teo where teo: "elems t e = Some teo" and
    rm: "removeTask t (key te) = Inr (t\<lparr>slots := (slots t)[nat (pos teo) := remove1 e (slots t ! nat (pos teo))],
                      taskMap := Mapping.delete (key te) (taskMap t)\<rparr>)" (is "_ = Inr ?t1")
    by auto
  from removeTask_inv[OF inv, of "key te"] rm have "wheel_inv ?t1" by simp
  then show ?thesis using Some r rm
    by (intro exI[of _ ?t1]) (simp add: addTask_def in_range_def Let_def)
qed

lemma addTask_inv:
  assumes inv: "wheel_inv t" and r: "in_range t (pos te)"
  shows "\<exists>t'. addTask t te = Inr t' \<and> wheel_inv t' \<and>
     Mapping.lookup (taskMap t') (key te) = Some (fresh t) \<and>
     elems t' = (elems t)(fresh t \<mapsto> te) \<and> fresh t' = Suc (fresh t) \<and>
     length (slots t') = length (slots t) \<and>
     fresh t \<in> set (slots t' ! nat (pos te))"
proof -
  from addTask_char[OF inv r] obtain t1 where t1: "wheel_inv t1"
    "Mapping.lookup (taskMap t1) (key te) = None"
     "fresh t1 = fresh t" "elems t1 = elems t" "length (slots t1) = length (slots t)"
     "addTask t te = Inr (t1\<lparr>slots := (slots t1)[nat (pos te) :=
                                 PushBack (slots t1 ! nat (pos te)) (fresh t)],
                     taskMap := Mapping.update (key te) (fresh t) (taskMap t1),
                     elems := (elems t)(fresh t \<mapsto> te),
                     fresh := Suc (fresh t)\<rparr>)" (is "_ = Inr ?t'")
    by blast
  have r1: "in_range t1 (pos te)" using r t1(5) by (simp add: in_range_def)
  have "wheel_inv ?t'" using link_inv[OF t1(1,2) r1] t1(3,4) by simp
  moreover have "nat (pos te) < length (slots t1)" using r1 by (auto simp: in_range_def)
  ultimately show ?thesis using t1
    by (intro exI[of _ ?t']) (simp add: PushBack_def)
qed

lemma addTask_panic:
  "\<not> in_range t (pos te) \<Longrightarrow> addTask t te = Inl (IndexOutOfRange (pos te) (length (slots t)))"
  by (simp add: addTask_def)

lemma removeTask_absent:
  "absent t a \<Longrightarrow> removeTask t k = Inr t' \<Longrightarrow> absent t' a"
  by (auto simp: removeTask_def absent_def Let_def Remove_def nth_update_cases in_range_def
      split: option.splits if_splits dest: set_mp[OF set_remove1_subset])

lemma addTask_absent:
  assumes "absent t a" "addTask t te = Inr t'"
  shows "absent t' a"
proof -
  from assms(2) obtain t1 where t1: "t1 = t \<or> removeTask t (key te) = Inr t1"
    and r: "in_range t (pos te)"
    and t': "t' = t1\<lparr>slots := (slots t1)[nat (pos te) := PushBack (slots t1 ! nat (pos te)) (fresh t1)],
                     taskMap := Mapping.update (key te) (fresh t1) (taskMap t1),
                     elems := (elems t1)(fresh t1 \<mapsto> te),
                     fresh := Suc (fresh t1)\<rparr>"
    by (auto simp: addTask_def Let_def split: if_splits sum.splits)
  from t1 assms(1) have "absent t1 a" by (auto dest: removeTask_absent)
  then show ?thesis unfolding t'
    by (auto simp: absent_def nth_update_cases PushBack_def split: if_splits)
qed

lemma execute_sub:
  "execute es l t = Inr (t', ls) \<Longrightarrow>
     set ls \<subseteq> set es \<and> fresh t' = fresh t \<and> length (slots t') = length (slots t) \<and>
     (\<forall>j < length (slots t). set (slots t' ! j) \<subseteq> set (slots t ! j))"
proof (induction es arbitrary: t ls)
  case Nil
  then show ?case by auto
next
  case (Cons e es)
  from Cons.prems obtain te where te: "elems t e = Some te" by (auto split: option.splits)
  show ?case
  proof (cases "0 < cycle te")
    case True
    with Cons.prems te have "execute es l (t\<lparr>elems := (elems t)(e \<mapsto> te\<lparr>cycle := cycle te - 1\<rparr>)\<rparr>) = Inr (t', ls)"
      by simp
    from Cons.IH[OF this] show ?thesis by auto
  next
    case False
    let ?t1 = "t\<lparr>slots := (slots t)[l := Remove (slots t ! l) e],
                       taskMap := Mapping.delete (key te) (taskMap t)\<rparr>"
    from Cons.prems te False obtain ls' where ex: "execute es l ?t1 = Inr (t', ls')" "ls = e # ls'"
      by (auto split: sum.splits)
    have "\<forall>j < length (slots t). set (slots ?t1 ! j) \<subseteq> set (slots t ! j)"
      by (auto simp: nth_update_cases Remove_def split: if_splits dest: set_mp[OF set_remove1_subset])
    with Cons.IH[OF ex(1)] ex(2) show ?thesis by fastforce
  qed
qed

lemma tick_absent:
  assumes "absent t a" "tick t = Inr (t', ls)"
  shows "absent t' a \<and> a \<notin> set ls"
proof -
  from assms(2) obtain t1 where r: "in_range t (curSlot t)"
    and ex: "execute (slots t ! nat (curSlot t)) (nat (curSlot t)) t = Inr (t1, ls)"
    and t': "t' = circleIncr t1"
    by (auto simp: tick_def split: if_splits sum.splits)
  have c: "nat (curSlot t) < length (slots t)" using r by (auto simp: in_range_def)
  from execute_sub[OF ex] assms(1) c show ?thesis unfolding t'
    by (auto simp: absent_def circleIncr_def)
qed

lemma serve_absent:
  assumes "absent (wheel s) a" "a \<notin> set (launched s)"
  shows "absent (wheel (serve s r)) a \<and> a \<notin> set (launched (serve s r))"
proof (cases "running s")
  case False
  then show ?thesis using assms by (simp add: serve_def)
next
  case True
  show ?thesis
  proof (cases r)
    case Tick
    then show ?thesis using assms True
      by (auto simp: serve_def split: sum.splits dest: tick_absent)
  next
    case (Add te)
    then show ?thesis using assms True
      by (auto simp: serve_def split: sum.splits dest: addTask_absent)
  next
    case (Del k)
    then show ?thesis using assms True
      by (auto simp: serve_def split: sum.splits dest: removeTask_absent)
  next
    case Stop
    then show ?thesis using assms True by (simp add: serve_def)
  qed
qed

lemma foldl_serve_absent:
  "absent (wheel s) a \<Longrightarrow> a \<notin> set (launched s) \<Longrightarrow>
   a \<notin> set (launched (foldl serve s rs))"
  by (induction rs arbitrary: s) (auto dest: serve_absent)

lemma foldl_serve_stopped:
  "\<not> running s \<Longrightarrow> foldl serve s rs = s"
  by (induction rs) (auto simp: serve_def)

lemma distinct_concat_nth:
  "(\<And>i. i < length xs \<Longrightarrow> distinct (xs ! i)) \<Longrightarrow>
   (\<And>i j. i < length xs \<Longrightarrow> j < length xs \<Longrightarrow> i \<noteq> j \<Longrightarrow> set (xs ! i) \<inter> set (xs ! j) = {}) \<Longrightarrow>
   distinct (concat xs)"
proof (induction xs)
  case Nil
  then show ?case by simp
next
  case (Cons x xs)
  have d: "distinct x" using Cons.prems(1)[of 0] by simp
  have "distinct (concat xs)"
  proof (rule Cons.IH)
    fix i assume "i < length xs"
    then show "distinct (xs ! i)" using Cons.prems(1)[of "Suc i"] by simp
  next
    fix i j assume "i < length xs" "j < length xs" "i \<noteq> j"
    then show "set (xs ! i) \<inter> set (xs ! j) = {}"
      using Cons.prems(2)[of "Suc i" "Suc j"] by simp
  qed
  moreover have "set x \<inter> set (concat xs) = {}"
  proof -
    { fix a assume a: "a \<in> set x" "a \<in> set (concat xs)"
      then obtain ys where "ys \<in> set xs" "a \<in> set ys" by auto
      then obtain j where j: "j < length xs" "a \<in> set (xs ! j)"
        by (metis in_set_conv_nth)
      with Cons.prems(2)[of 0 "Suc j"] a(1) have False by auto }
    then show ?thesis by blast
  qed
  ultimately show ?case using d by simp
qed

lemma filter_single:
  "distinct xs \<Longrightarrow> e \<in> set xs \<Longrightarrow> (\<And>x. x \<in> set xs \<Longrightarrow> P x \<longleftrightarrow> x = e) \<Longrightarrow> filter P xs = [e]"
proof (induction xs)
  case Nil
  then show ?case by simp
next
  case (Cons a xs)
  show ?case
  proof (cases "a = e")
    case True
    with Cons.prems have "filter P xs = []" by (auto simp: filter_empty_conv)
    with True Cons.prems show ?thesis by simp
  next
    case False
    with Cons.prems have "\<not> P a" by auto
    moreover have "filter P xs = [e]" using Cons.prems False by (intro Cons.IH) auto
    ultimately show ?thesis by simp
  qed
qed

lemma wheel_inv_distinct: 
  assumes "wheel_inv t" shows "distinct (concat (slots t))"
proof (rule distinct_concat_nth)
  fix i assume "i < length (slots t)"
  then show "distinct (slots t ! i)" using assms by (simp add: wheel_inv_def)
next
  fix i j assume "i < length (slots t)" "j < length (slots t)" "i \<noteq> j"
  then show "set (slots t ! i) \<inter> set (slots t ! j) = {}"
    using bucket_unique[OF assms] by blast
qed

lemma wheel_inv_exact:
  assumes inv: "wheel_inv t"
  shows "key_index_exact t"
  unfolding key_index_exact_def
proof
  fix k assume k: "k \<in> Mapping.keys (taskMap t) \<union> key_of t ` set (concat (slots t))"
  have bk: "\<And>x. x \<in> set (concat (slots t)) \<Longrightarrow> Mapping.lookup (taskMap t) (key_of t x) = Some x"
  proof -
    fix x assume "x \<in> set (concat (slots t))"
    then obtain ys where "ys \<in> set (slots t)" "x \<in> set ys" by auto
    then obtain i where "i < length (slots t)" "x \<in> set (slots t ! i)"
      by (metis in_set_conv_nth)
    with inv have "bucket_ok t i x" by (simp add: wheel_inv_def)
    then show "Mapping.lookup (taskMap t) (key_of t x) = Some x"
      by (auto simp: bucket_ok_def key_of_def split: option.splits)
  qed
  have "k \<in> Mapping.keys (taskMap t)" using k bk by (auto simp: keys_dom_lookup)
  then have "index_ok t k" using inv by (simp add: wheel_inv_def)
  then obtain e te where e: "Mapping.lookup (taskMap t) k = Some e" "elems t e = Some te"
      "key te = k" "in_range t (pos te)" "e \<in> set (slots t ! nat (pos te))"
    by (auto simp: index_ok_def split: option.splits)
  have "nat (pos te) < length (slots t)" using e(4) by (auto simp: in_range_def)
  then have "slots t ! nat (pos te) \<in> set (slots t)" by simp
  with e(5) have ein: "e \<in> set (concat (slots t))" by auto
  have "filter (\<lambda>x. key_of t x = k) (concat (slots t)) = [e]"
  proof (rule filter_single[OF wheel_inv_distinct[OF inv] ein])
    fix x assume "x \<in> set (concat (slots t))"
    from bk[OF this] e show "(key_of t x = k) = (x = e)" by (auto simp: key_of_def)
  qed
  with e(1) show "case Mapping.lookup (taskMap t) k of None \<Rightarrow> False
      | Some e \<Rightarrow> filter (\<lambda>x. key_of t x = k) (concat (slots t)) = [e]" by simp
qed

lemma example_wheel_inv: "wheel_inv example_wheel"
  by (simp add: wheel_inv_def example_wheel_def in_range_def bucket_ok_def index_ok_def
      less_Suc_eq numeral_nat all_conj_distrib)

lemma example_built:
  "wheel (run (NewTimeWheel 10 100000000) 
     [Add \<lparr>task = 7, pos = 0, cycle = 1, key = ''a''\<rparr>, Add \<lparr>task = 8, pos = 0, cycle = 0, key = ''b''\<rparr>]) = example_wheel"
  by (simp add: run_def serve_def NewTimeWheel_def addTask_def in_range_def PushBack_def example_wheel_def numeral_nat)

lemma go_div_mod_spec:
  assumes "b \<noteq> 0"
  shows "a = go_div a b * b + go_mod a b \<and> \<bar>go_mod a b\<bar> < \<bar>b\<bar> \<and>
         (go_mod a b = 0 \<or> sgn (go_mod a b) = sgn a)"
proof -
  have 1: "\<bar>a\<bar> = (\<bar>a\<bar> div \<bar>b\<bar>) * \<bar>b\<bar> + \<bar>a\<bar> mod \<bar>b\<bar>" by simp
  have 2: "0 \<le> \<bar>a\<bar> mod \<bar>b\<bar>" "\<bar>a\<bar> mod \<bar>b\<bar> < \<bar>b\<bar>" using assms by simp_all
  have "a = sgn a * \<bar>a\<bar>" by (simp add: sgn_if)
  also have "\<dots> = sgn a * ((\<bar>a\<bar> div \<bar>b\<bar>) * \<bar>b\<bar> + \<bar>a\<bar> mod \<bar>b\<bar>)" using 1 by simp
  also have "\<dots> = sgn a * (\<bar>a\<bar> div \<bar>b\<bar>) * (sgn b * b) + sgn a * (\<bar>a\<bar> mod \<bar>b\<bar>)"
    by (simp add: algebra_simps abs_sgn sgn_if)
  also have "\<dots> = go_div a b * b + go_mod a b"
    by (simp add: go_div_def go_mod_def algebra_simps)
  finally have A: "a = go_div a b * b + go_mod a b" .
  have B: "\<bar>go_mod a b\<bar> < \<bar>b\<bar>" using 2 by (auto simp: go_mod_def sgn_if)
  have C: "go_mod a b = 0 \<or> sgn (go_mod a b) = sgn a"
    using 2 by (auto simp: go_mod_def sgn_if)
  from A B C show ?thesis by blast
qed

lemma go_div_neg: "a < 0 \<Longrightarrow> 0 < b \<Longrightarrow> go_div a b = - ((- a) div b)"
  by (simp add: go_div_def)

text \<open>
  Replacement. When \<open>addTask\<close> receives a task whose key already has a scheduled element
  \<open>old\<close>, and the position of the task lies inside the slot array, the prior element
  is unlinked from every bucket, the index maps the key to the newly allocated element,
  which sits in the bucket of the new position, and that element is the only one in any
  bucket carrying the key. Whatever the position and whatever requests follow, the prior
  registration is never launched: a position outside the slot array panics in the first
  statement of \<open>addTask\<close> and ends the control loop.
\<close>

lemma addTask_replaces_prior:
  assumes inv: "wheel_inv t" and old: "Mapping.lookup (taskMap t) (key te) = Some old"
  shows "(in_range t (pos te) \<longrightarrow>
           (\<exists>t'. addTask t te = Inr t' \<and>
              (\<forall>i < length (slots t'). old \<notin> set (slots t' ! i)) \<and>
              Mapping.lookup (taskMap t') (key te) = Some (fresh t) \<and> fresh t \<noteq> old \<and>
              elems t' (fresh t) = Some te \<and>
              fresh t \<in> set (slots t' ! nat (pos te)) \<and>
              filter (\<lambda>x. key_of t' x = key te) (concat (slots t')) = [fresh t])) \<and>
         (\<forall>rs. old \<notin> set (launched (run t (Add te # rs))))"
proof (intro conjI impI allI)
  assume r: "in_range t (pos te)"
  from removeTask_Some[OF inv old] obtain teo where teo: "elems t old = Some teo"
      "key teo = key te" "old < fresh t" by blast
  from addTask_inv[OF inv r] obtain t' where t': "addTask t te = Inr t'" "wheel_inv t'"
     "Mapping.lookup (taskMap t') (key te) = Some (fresh t)"
     "elems t' = (elems t)(fresh t \<mapsto> te)" "fresh t' = Suc (fresh t)"
     "length (slots t') = length (slots t)"
     "fresh t \<in> set (slots t' ! nat (pos te))" by blast
  have ne: "fresh t \<noteq> old" using teo(3) by simp
  have gone: "\<forall>i < length (slots t'). old \<notin> set (slots t' ! i)"
  proof (intro allI impI notI)
    fix i assume "i < length (slots t')" "old \<in> set (slots t' ! i)"
    with t'(2) have "bucket_ok t' i old" by (simp add: wheel_inv_def)
    moreover have "elems t' old = Some teo" using t'(4) teo(1) ne by simp
    ultimately have "Mapping.lookup (taskMap t') (key teo) = Some old"
      by (simp add: bucket_ok_def)
    with t'(3) teo(2) ne show False by simp
  qed
  have "key te \<in> Mapping.keys (taskMap t')" using t'(3) by (simp add: keys_dom_lookup domI)
  with wheel_inv_exact[OF t'(2)] t'(3)
  have one: "filter (\<lambda>x. key_of t' x = key te) (concat (slots t')) = [fresh t]"
    by (auto simp: key_index_exact_def split: option.splits)
  have "elems t' (fresh t) = Some te" using t'(4) by simp
  with t' ne gone one
  show "\<exists>t'. addTask t te = Inr t' \<and>
              (\<forall>i < length (slots t'). old \<notin> set (slots t' ! i)) \<and>
              Mapping.lookup (taskMap t') (key te) = Some (fresh t) \<and> fresh t \<noteq> old \<and>
              elems t' (fresh t) = Some te \<and>
              fresh t \<in> set (slots t' ! nat (pos te)) \<and>
              filter (\<lambda>x. key_of t' x = key te) (concat (slots t')) = [fresh t]"
    by blast
next
  fix rs
  let ?s0 = "\<lparr>wheel = t, launched = [], running = True\<rparr>"
  show "old \<notin> set (launched (run t (Add te # rs)))"
  proof (cases "in_range t (pos te)")
    case False
    then have "serve ?s0 (Add te) = ?s0\<lparr>running := False\<rparr>"
      by (simp add: serve_def addTask_panic)
    then have "run t (Add te # rs) = ?s0\<lparr>running := False\<rparr>"
      by (simp add: run_def foldl_serve_stopped)
    then show ?thesis by simp
  next
    case True
    from removeTask_Some[OF inv old] obtain teo where teo: "elems t old = Some teo"
      "key teo = key te" "old < fresh t" by blast
    from addTask_inv[OF inv True] obtain t' where t': "addTask t te = Inr t'" "wheel_inv t'"
     "Mapping.lookup (taskMap t') (key te) = Some (fresh t)"
     "elems t' = (elems t)(fresh t \<mapsto> te)" "fresh t' = Suc (fresh t)" by blast
    have ne: "fresh t \<noteq> old" using teo(3) by simp
    have "absent t' old" unfolding absent_def
    proof (intro conjI allI impI notI)
      show "old < fresh t'" using t'(5) teo(3) by simp
    next
      fix i assume "i < length (slots t')" "old \<in> set (slots t' ! i)"
      with t'(2) have "bucket_ok t' i old" by (simp add: wheel_inv_def)
      moreover have "elems t' old = Some teo" using t'(4) teo(1) ne by simp
      ultimately have "Mapping.lookup (taskMap t') (key teo) = Some old"
        by (simp add: bucket_ok_def)
      with t'(3) teo(2) ne show False by simp
    qed
    moreover have "serve ?s0 (Add te) = ?s0\<lparr>wheel := t'\<rparr>" using t'(1) by (simp add: serve_def)
    ultimately show ?thesis
      using foldl_serve_absent[of "?s0\<lparr>wheel := t'\<rparr>" old rs] by (simp add: run_def)
  qed
qed

lemma addTask_replaces_prior_example:
  "wheel_inv example_wheel \<and>
   Mapping.lookup (taskMap example_wheel) (key \<lparr>task = 9::nat, pos = 3, cycle = 0, key = ''a''\<rparr>) = Some 0 \<and>
   in_range example_wheel (pos \<lparr>task = 9::nat, pos = 3, cycle = 0, key = ''a''\<rparr>) \<and>
   (\<exists>t'. addTask example_wheel \<lparr>task = 9, pos = 3, cycle = 0, key = ''a''\<rparr> = Inr t' \<and>
      (\<forall>i < length (slots t'). 0 \<notin> set (slots t' ! i)) \<and>
      Mapping.lookup (taskMap t') ''a'' = Some 2 \<and>
      elems t' 2 = Some \<lparr>task = 9, pos = 3, cycle = 0, key = ''a''\<rparr> \<and>
      2 \<in> set (slots t' ! 3)) \<and>
   0 \<notin> set (launched (run example_wheel
          [Add \<lparr>task = 9, pos = 3, cycle = 0, key = ''a''\<rparr>, Tick, Tick, Tick, Tick]))"
proof -
  have h: "wheel_inv example_wheel" by (rule example_wheel_inv)
  have o: "Mapping.lookup (taskMap example_wheel) (key \<lparr>task = 9::nat, pos = 3, cycle = 0, key = ''a''\<rparr>) = Some 0"
    by (simp add: example_wheel_def)
  have r: "in_range example_wheel (pos \<lparr>task = 9::nat, pos = 3, cycle = 0, key = ''a''\<rparr>)"
    by (simp add: in_range_def example_wheel_def)
  have f: "fresh example_wheel = 2" by (simp add: example_wheel_def)
  from addTask_replaces_prior[OF h o] r f show ?thesis using h o
    by auto
qed

subsection \<open>Arithmetic of the slot position at 64 bits\<close>

lemma int64_id: "fits_int64 x \<Longrightarrow> int64 x = x"
proof -
  assume "fits_int64 x"
  then have "0 \<le> x + 2 ^ 63" "x + 2 ^ 63 < 2 ^ 64" by (simp_all add: fits_int64_def)
  then have "(x + 2 ^ 63) mod 2 ^ 64 = x + 2 ^ 63" by (rule mod_pos_pos_trivial)
  then show ?thesis by (simp add: int64_def)
qed

lemma int_div_le_self: "0 \<le> a \<Longrightarrow> 0 < b \<Longrightarrow> a div b \<le> (a::int)"
  using zdiv_mono2[of a 1 b] by simp

lemma fits_go_div: "fits_int64 a \<Longrightarrow> 0 < b \<Longrightarrow> fits_int64 (go_div a b)"
proof -
  assume a: "fits_int64 a" and b: "0 < b"
  show ?thesis
  proof (cases "0 \<le> a")
    case True
    then have "go_div a b = a div b" using b by (rule go_div_nonneg)
    moreover have "0 \<le> a div b" "a div b \<le> a" using True b
      by (simp_all add: pos_imp_zdiv_nonneg_iff int_div_le_self)
    ultimately show ?thesis using a by (simp add: fits_int64_def)
  next
    case False
    then have "go_div a b = - ((- a) div b)" using b by (simp add: go_div_neg)
    moreover have "0 \<le> (- a) div b" "(- a) div b \<le> - a" using False b
      by (simp_all add: pos_imp_zdiv_nonneg_iff int_div_le_self)
    ultimately show ?thesis using a by (simp add: fits_int64_def)
  qed
qed

lemma AddTask_value:
  assumes inv: "wheel_inv t" and d: "fits_int64 delay"
    and p: "fits_int64 (interval t * int (length (slots t)))"
  shows "AddTask t k f delay =
     Inr \<lparr>task = f,
          pos = go_mod (int64 (curSlot t + go_div delay (interval t))) (int (length (slots t))),
          cycle = go_div delay (interval t * int (length (slots t))), key = k\<rparr>"
proof -
  let ?n = "int (length (slots t))"
  have iv: "0 < interval t" and c: "0 \<le> curSlot t" "curSlot t < ?n"
    using inv by (simp_all add: wheel_inv_def in_range_def)
  then have n: "0 < ?n" by linarith
  have prod: "0 < interval t * ?n" using iv n by simp
  have w: "int64 (interval t * ?n) = interval t * ?n" using p by (rule int64_id)
  have q: "int64 (go_div delay (interval t)) = go_div delay (interval t)"
    using fits_go_div[OF d iv] by (rule int64_id)
  have cy: "int64 (go_div delay (interval t * ?n)) = go_div delay (interval t * ?n)"
    using fits_go_div[OF d prod] by (rule int64_id)
  have nz: "interval t * ?n \<noteq> 0" using iv n by simp
  show ?thesis
    unfolding AddTask_def getPosAndCircle_def Let_def w q cy using nz by simp
qed

lemma sum_fits_neg:
  assumes inv: "wheel_inv t" and d: "fits_int64 delay" and neg: "delay < 0"
    and p: "fits_int64 (interval t * int (length (slots t)))"
  shows "fits_int64 (curSlot t + go_div delay (interval t))"
proof -
  let ?n = "int (length (slots t))"
  have iv: "0 < interval t" and c: "0 \<le> curSlot t" "curSlot t < ?n"
    using inv by (simp_all add: wheel_inv_def in_range_def)
  have "?n \<le> interval t * ?n" using iv c by (simp add: mult_le_cancel_right1)
  then have cs: "curSlot t < 2 ^ 63" using c p by (simp add: fits_int64_def)
  have q: "fits_int64 (go_div delay (interval t))" by (rule fits_go_div[OF d iv])
  have "go_div delay (interval t) \<le> 0" using neg iv by (simp add: go_div_neg pos_imp_zdiv_nonneg_iff)
  with q cs c show ?thesis by (simp add: fits_int64_def)
qed

section \<open>Claims about the timing wheel\<close>

text \<open>
  Claim C2, at an input where the code departs from it. On the example wheel key \<open>a\<close> is
  scheduled as element 0 of slot 0. A second \<open>AddTask\<close> for \<open>a\<close> with an instant one tick
  in the past computes position \<open>-1\<close>; \<open>addTask\<close> panics on \<open>slots[pos]\<close>, its first
  statement, before \<open>removeTask\<close> is reached: the control loop stops, the prior element
  is still in its bucket and in the index, and the new registration is stored nowhere.
  (Wherever the position lies inside the slot array the replacement takes place, and
  in no case is the prior registration launched: lemma \<open>addTask_replaces_prior\<close>.)
\<close>

theorem readd_in_past_keeps_prior:
  "Mapping.lookup (taskMap example_wheel) ''a'' = Some 0 \<and>
   AddTask example_wheel ''a'' (9::nat) (- 100000000) =
     Inr \<lparr>task = 9, pos = - 1, cycle = 0, key = ''a''\<rparr> \<and>
   run example_wheel [Add \<lparr>task = 9, pos = - 1, cycle = 0, key = ''a''\<rparr>] =
     \<lparr>wheel = example_wheel, launched = [], running = False\<rparr> \<and>
   0 \<in> set (slots example_wheel ! 0) \<and>
   elems example_wheel 0 = Some \<lparr>task = 7, pos = 0, cycle = 1, key = ''a''\<rparr>"
  by (simp add: AddTask_def getPosAndCircle_def example_wheel_def go_div_def go_mod_def
      int64_def run_def serve_def addTask_def in_range_def)

text \<open>
  Claim C3. One tick of a wheel that satisfies the invariant never panics and processes
  the bucket of the current slot only: the tasks launched are those of the bucket whose
  \<open>cycle\<close> is not positive, in bucket order; the bucket keeps exactly the tasks with a
  positive \<open>cycle\<close>, each with \<open>cycle\<close> decremented by one and still indexed under its
  key; the keys of the launched tasks leave the index and no other index entry changes;
  no other bucket and no other element changes; the cursor becomes
  \<open>(curSlot + 1) mod slotCount\<close>.
\<close>

theorem tick_processes_current_bucket:
  assumes "wheel_inv t"
  shows "\<exists>t' ls. tick t = Inr (t', ls) \<and>
     ls = filter (\<lambda>e. \<not> stays t e) (slots t ! nat (curSlot t)) \<and>
     slots t' = (slots t)[nat (curSlot t) := filter (stays t) (slots t ! nat (curSlot t))] \<and>
     (\<forall>a. elems t' a = (if a \<in> set (slots t ! nat (curSlot t)) \<and> stays t a
                         then map_option decr (elems t a) else elems t a)) \<and>
     (\<forall>k. Mapping.lookup (taskMap t') k =
            (if k \<in> key_of t ` set ls then None else Mapping.lookup (taskMap t) k)) \<and>
     (\<forall>e \<in> set (slots t ! nat (curSlot t)).
         stays t e \<longrightarrow> Mapping.lookup (taskMap t') (key_of t e) = Some e) \<and>
     curSlot t' = (curSlot t + 1) mod int (length (slots t)) \<and>
     interval t' = interval t \<and> fresh t' = fresh t"
proof -
  let ?c = "nat (curSlot t)"
  let ?b = "slots t ! ?c"
  have r: "in_range t (curSlot t)" and c: "?c < length (slots t)"
    using assms by (auto simp: wheel_inv_def in_range_def)
  have cs: "0 \<le> curSlot t" using r by (simp add: in_range_def)
  note b = bucket_elems[OF assms c]
  from execute_char[OF b(1) b(2) c b(1)]
  obtain t1 where t1: "execute ?b ?c t = Inr (t1, filter (\<lambda>e. \<not> stays t e) ?b)"
     "interval t1 = interval t" "curSlot t1 = curSlot t" "fresh t1 = fresh t"
     "slots t1 = (slots t)[?c := filter (\<lambda>x. x \<notin> set (filter (\<lambda>e. \<not> stays t e) ?b)) ?b]"
     "\<And>a. elems t1 a = (if a \<in> set ?b \<and> stays t a then map_option decr (elems t a) else elems t a)"
     "\<And>k. Mapping.lookup (taskMap t1) k =
        (if k \<in> key_of t ` set (filter (\<lambda>e. \<not> stays t e) ?b) then None
         else Mapping.lookup (taskMap t) k)"
    by blast
  have f: "filter (\<lambda>x. x \<notin> set (filter (\<lambda>e. \<not> stays t e) ?b)) ?b = filter (stays t) ?b"
    by (rule filter_cong) auto
  have tk: "tick t = Inr (circleIncr t1, filter (\<lambda>e. \<not> stays t e) ?b)"
    using r t1(1) by (simp add: tick_def)
  have cur: "curSlot (circleIncr t1) = (curSlot t + 1) mod int (length (slots t))"
    using cs t1(3,5) by (simp add: circleIncr_def go_mod_nonneg)
  have keep: "\<forall>e \<in> set ?b. stays t e \<longrightarrow> Mapping.lookup (taskMap t1) (key_of t e) = Some e"
  proof (intro ballI impI)
    fix e assume e: "e \<in> set ?b" "stays t e"
    have lk: "\<And>x. x \<in> set ?b \<Longrightarrow> Mapping.lookup (taskMap t) (key_of t x) = Some x"
    proof -
      fix x assume "x \<in> set ?b"
      with assms c have "bucket_ok t ?c x" by (simp add: wheel_inv_def)
      then show "Mapping.lookup (taskMap t) (key_of t x) = Some x"
        by (auto simp: bucket_ok_def key_of_def split: option.splits)
    qed
    have "key_of t e \<notin> key_of t ` set (filter (\<lambda>e. \<not> stays t e) ?b)"
    proof
      assume "key_of t e \<in> key_of t ` set (filter (\<lambda>e. \<not> stays t e) ?b)"
      then obtain x where x: "x \<in> set ?b" "\<not> stays t x" "key_of t x = key_of t e" by auto
      have "Some x = Some e" using lk[OF x(1)] lk[OF e(1)] unfolding x(3) by (rule trans[OF sym])
      then have "x = e" by (rule Option.option.inject[THEN iffD1])
      with x(2) e(2) show False by blast
    qed
    then show "Mapping.lookup (taskMap t1) (key_of t e) = Some e"
      using lk[OF e(1)] by (simp add: t1(7))
  qed
  have sl: "slots (circleIncr t1) = (slots t)[?c := filter (stays t) ?b]"
    unfolding circleIncr_def using t1(5) f by simp
  have el: "\<forall>a. elems (circleIncr t1) a = (if a \<in> set ?b \<and> stays t a
                         then map_option decr (elems t a) else elems t a)"
    unfolding circleIncr_def using t1(6) by simp
  have tm: "\<forall>k. Mapping.lookup (taskMap (circleIncr t1)) k =
        (if k \<in> key_of t ` set (filter (\<lambda>e. \<not> stays t e) ?b) then None
         else Mapping.lookup (taskMap t) k)"
    unfolding circleIncr_def using t1(7) by simp
  have kp: "\<forall>e \<in> set ?b. stays t e \<longrightarrow>
       Mapping.lookup (taskMap (circleIncr t1)) (key_of t e) = Some e"
    unfolding circleIncr_def using keep by simp
  have rest: "interval (circleIncr t1) = interval t" "fresh (circleIncr t1) = fresh t"
    unfolding circleIncr_def using t1(2,4) by simp_all
  from tk sl el tm kp cur rest show ?thesis by blast
qed

theorem tick_processes_current_bucket_witness:
  "wheel_inv example_wheel \<and>
   (\<exists>t'. tick example_wheel = Inr (t', [1]) \<and> slots t' ! 0 = [0] \<and> curSlot t' = 1 \<and>
      Mapping.lookup (taskMap t') ''b'' = None \<and> Mapping.lookup (taskMap t') ''a'' = Some 0 \<and>
      map_option cycle (elems t' 0) = Some 0)"
proof -
  have h: "wheel_inv example_wheel" by (rule example_wheel_inv)
  from tick_processes_current_bucket[OF h] obtain t' ls where
    "tick example_wheel = Inr (t', ls)"
    "ls = filter (\<lambda>e. \<not> stays example_wheel e) (slots example_wheel ! nat (curSlot example_wheel))"
    "slots t' = (slots example_wheel)[nat (curSlot example_wheel) := filter (stays example_wheel) (slots example_wheel ! nat (curSlot example_wheel))]"
    "\<forall>a. elems t' a = (if a \<in> set (slots example_wheel ! nat (curSlot example_wheel)) \<and> stays example_wheel a
                         then map_option decr (elems example_wheel a) else elems example_wheel a)"
    "\<forall>k. Mapping.lookup (taskMap t') k =
            (if k \<in> key_of example_wheel ` set ls then None else Mapping.lookup (taskMap example_wheel) k)"
    "curSlot t' = (curSlot example_wheel + 1) mod int (length (slots example_wheel))"
    by blast
  then show ?thesis using h
    by (intro conjI exI[of _ t']) (simp_all add: example_wheel_def stays_def key_of_def decr_def)
qed

text \<open>
  Claim C4, as amended. On a wheel whose product \<open>interval * slotCount\<close> fits a 64-bit
  \<open>int\<close>, \<open>AddTask\<close> hands the control loop a task element whose \<open>cycle\<close> is
  \<open>delay / (interval * slotCount)\<close> and whose \<open>pos\<close> is
  \<open>(curSlot + delay / interval) % slotCount\<close>, with Go's truncating division and
  sign-keeping remainder, for every delay: there is no clamping of a negative delay.
  The sum is taken in 64 bits; it does not wrap for a negative delay, nor for any delay
  for which it fits. For a delay that is not negative the two are the usual quotient
  and remainder and the position is inside the slot array. Whenever the position is
  inside the slot array the control loop stores the element, with these two fields, in
  the bucket of that position and indexes it under its key.
\<close>

theorem AddTask_position_and_cycle:
  assumes inv: "wheel_inv t" and d: "fits_int64 delay"
    and p: "fits_int64 (interval t * int (length (slots t)))"
  shows "\<exists>te. AddTask t k f delay = Inr te \<and> task te = f \<and> key te = k \<and>
      cycle te = go_div delay (interval t * int (length (slots t))) \<and>
      pos te = go_mod (int64 (curSlot t + go_div delay (interval t))) (int (length (slots t))) \<and>
      (fits_int64 (curSlot t + go_div delay (interval t)) \<longrightarrow>
         pos te = go_mod (curSlot t + go_div delay (interval t)) (int (length (slots t)))) \<and>
      (0 \<le> delay \<longrightarrow> cycle te = delay div (interval t * int (length (slots t)))) \<and>
      (0 \<le> delay \<and> fits_int64 (curSlot t + go_div delay (interval t)) \<longrightarrow>
         pos te = (curSlot t + delay div interval t) mod int (length (slots t)) \<and>
         in_range t (pos te)) \<and>
      (delay < 0 \<longrightarrow>
         cycle te = - ((- delay) div (interval t * int (length (slots t)))) \<and>
         pos te = go_mod (curSlot t - (- delay) div interval t) (int (length (slots t)))) \<and>
      (in_range t (pos te) \<longrightarrow>
         (\<exists>t'. addTask t te = Inr t' \<and> elems t' (fresh t) = Some te \<and>
               fresh t \<in> set (slots t' ! nat (pos te)) \<and>
               Mapping.lookup (taskMap t') k = Some (fresh t)))"
proof -
  let ?n = "int (length (slots t))"
  let ?s = "curSlot t + go_div delay (interval t)"
  let ?te = "\<lparr>task = f, pos = go_mod (int64 ?s) ?n,
               cycle = go_div delay (interval t * ?n), key = k\<rparr>"
  have iv: "0 < interval t" and c: "0 \<le> curSlot t" "curSlot t < ?n"
    using inv by (simp_all add: wheel_inv_def in_range_def)
  then have n: "0 < ?n" by linarith
  have prod: "0 < interval t * ?n" using iv n by simp
  have A: "AddTask t k f delay = Inr ?te"
    by (rule AddTask_value[OF inv d p])
  have F: "fits_int64 ?s \<longrightarrow> pos ?te = go_mod ?s ?n"
    by (simp add: int64_id)
  have B1: "0 \<le> delay \<longrightarrow> cycle ?te = delay div (interval t * ?n)"
    using go_div_nonneg[of delay "interval t * ?n"] prod by simp
  have B2: "0 \<le> delay \<and> fits_int64 ?s \<longrightarrow>
         pos ?te = (curSlot t + delay div interval t) mod ?n \<and> in_range t (pos ?te)"
  proof
    assume h: "0 \<le> delay \<and> fits_int64 ?s"
    then have dd: "0 \<le> delay" and fs: "fits_int64 ?s" by simp_all
    have q: "go_div delay (interval t) = delay div interval t"
      using dd iv by (rule go_div_nonneg)
    have "0 \<le> delay div interval t" using dd iv by (simp add: pos_imp_zdiv_nonneg_iff)
    then have s: "0 \<le> curSlot t + delay div interval t" using c by simp
    have "pos ?te = go_mod ?s ?n" using fs by (simp add: int64_id)
    also have "\<dots> = (curSlot t + delay div interval t) mod ?n"
      using go_mod_nonneg[OF s, of ?n] q by simp
    finally have pp: "pos ?te = (curSlot t + delay div interval t) mod ?n" .
    have "0 \<le> (curSlot t + delay div interval t) mod ?n"
       "(curSlot t + delay div interval t) mod ?n < ?n"
      using n by (rule pos_mod_sign, rule pos_mod_bound)
    with pp have "in_range t (pos ?te)" by (simp add: in_range_def)
    with pp show "pos ?te = (curSlot t + delay div interval t) mod ?n \<and> in_range t (pos ?te)"
      by blast
  qed
  have C: "delay < 0 \<longrightarrow>
         cycle ?te = - ((- delay) div (interval t * ?n)) \<and>
         pos ?te = go_mod (curSlot t - (- delay) div interval t) ?n"
  proof
    assume neg: "delay < 0"
    have fs: "fits_int64 ?s" by (rule sum_fits_neg[OF inv d neg p])
    have "pos ?te = go_mod ?s ?n" using fs by (simp add: int64_id)
    then show "cycle ?te = - ((- delay) div (interval t * ?n)) \<and>
         pos ?te = go_mod (curSlot t - (- delay) div interval t) ?n"
      using go_div_neg[OF neg prod] go_div_neg[OF neg iv] by simp
  qed
  have D: "in_range t (pos ?te) \<longrightarrow>
         (\<exists>t'. addTask t ?te = Inr t' \<and> elems t' (fresh t) = Some ?te \<and>
               fresh t \<in> set (slots t' ! nat (pos ?te)) \<and>
               Mapping.lookup (taskMap t') k = Some (fresh t))"
  proof
    assume r: "in_range t (pos ?te)"
    from addTask_inv[OF inv r] show "\<exists>t'. addTask t ?te = Inr t' \<and> elems t' (fresh t) = Some ?te \<and>
               fresh t \<in> set (slots t' ! nat (pos ?te)) \<and>
               Mapping.lookup (taskMap t') k = Some (fresh t)"
      by auto
  qed
  have E: "task ?te = f" "key ?te = k"
    "cycle ?te = go_div delay (interval t * ?n)"
    "pos ?te = go_mod (int64 ?s) ?n" by simp_all
  from A F B1 B2 C D E show ?thesis by blast
qed

theorem AddTask_position_and_cycle_witness:
  "wheel_inv example_wheel \<and> fits_int64 5200000000 \<and>
   fits_int64 (interval example_wheel * int (length (slots example_wheel))) \<and>
   AddTask example_wheel ''c'' (9::nat) 5200000000 =
     Inr \<lparr>task = 9, pos = 2, cycle = 5, key = ''c''\<rparr> \<and>
   in_range example_wheel 2 \<and>
   (\<exists>t'. addTask example_wheel \<lparr>task = 9, pos = 2, cycle = 5, key = ''c''\<rparr> = Inr t' \<and>
         elems t' 2 = Some \<lparr>task = 9, pos = 2, cycle = 5, key = ''c''\<rparr> \<and>
         2 \<in> set (slots t' ! 2) \<and> Mapping.lookup (taskMap t') ''c'' = Some 2)"
proof -
  have h: "wheel_inv example_wheel" by (rule example_wheel_inv)
  have d: "fits_int64 5200000000" by (simp add: fits_int64_def)
  have p: "fits_int64 (interval example_wheel * int (length (slots example_wheel)))"
    by (simp add: fits_int64_def example_wheel_def)
  have fs: "fits_int64 (curSlot example_wheel + go_div 5200000000 (interval example_wheel))"
    by (simp add: fits_int64_def example_wheel_def go_div_def)
  have r: "in_range example_wheel 2" by (simp add: in_range_def example_wheel_def)
  from AddTask_position_and_cycle[OF h d p, of "''c''" "9::nat"] fs
  obtain te where te: "AddTask example_wheel ''c'' (9::nat) 5200000000 = Inr te"
     "task te = 9" "key te = ''c''"
     "pos te = (curSlot example_wheel + 5200000000 div interval example_wheel) mod
                   int (length (slots example_wheel))"
     "cycle te = 5200000000 div (interval example_wheel * int (length (slots example_wheel)))"
     "in_range example_wheel (pos te) \<longrightarrow>
         (\<exists>t'. addTask example_wheel te = Inr t' \<and> elems t' (fresh example_wheel) = Some te \<and>
               fresh example_wheel \<in> set (slots t' ! nat (pos te)) \<and>
               Mapping.lookup (taskMap t') ''c'' = Some (fresh example_wheel))"
    by auto
  have pc: "pos te = 2" "cycle te = 5" using te(4,5) by (simp_all add: example_wheel_def)
  have "te = \<lparr>task = 9, pos = 2, cycle = 5, key = ''c''\<rparr>" using te(2,3) pc by (cases te) simp
  with te(1,6) r h d p show ?thesis by (simp add: example_wheel_def)
qed

text \<open>
  Against claim C4 as stated: on a wheel of ten slots with a tick of \<open>10 ^ 18\<close> ns the
  product \<open>interval * slotCount\<close> wraps around to a negative number, and a delay of
  \<open>9 * 10 ^ 18\<close> ns gets cycle \<open>-1\<close>, where the quotient of the claim is \<open>0\<close>; on a wheel
  of sixteen slots with a tick of \<open>2 ^ 61\<close> ns the product wraps around to zero and
  \<open>AddTask\<close> panics in the division. And on a fresh wheel of ten slots and 100 ms a
  delay of one tick in the past gets position \<open>-1\<close>, which \<open>addTask\<close> stores nowhere.
\<close>

theorem AddTask_overflow_counterexample:
  "AddTask (NewTimeWheel 10 1000000000000000000) ''k'' (0::nat) 9000000000000000000 =
     Inr \<lparr>task = 0, pos = 9, cycle = - 1, key = ''k''\<rparr> \<and>
   go_div 9000000000000000000 (1000000000000000000 * 10) = 0 \<and>
   AddTask (NewTimeWheel 16 2305843009213693952) ''k'' (0::nat) 1 = Inl DivideByZero \<and>
   AddTask (NewTimeWheel 10 100000000) ''k'' (0::nat) (- 100000000) =
     Inr \<lparr>task = 0, pos = - 1, cycle = 0, key = ''k''\<rparr> \<and>
   addTask (NewTimeWheel 10 100000000) \<lparr>task = 0::nat, pos = - 1, cycle = 0, key = ''k''\<rparr> =
     Inl (IndexOutOfRange (- 1) 10)"
  by (simp add: AddTask_def getPosAndCircle_def NewTimeWheel_def go_div_def go_mod_def int64_def
      addTask_def in_range_def)

text \<open>
  Claim C8. On a wheel that satisfies the invariant, adding a task whose position lies
  inside the slot array, removing a key and processing a tick all complete without a
  panic and yield a wheel that satisfies the invariant again; the invariant implies that
  every active key occurs on exactly one element over all buckets and that the index
  maps the key to that element. Adding a task whose position lies outside the slot
  array panics before the wheel is touched.
\<close>

theorem wheel_operations_preserve_invariant:
  assumes "wheel_inv t"
  shows "key_index_exact t \<and>
     (\<forall>te. if in_range t (pos te)
           then \<exists>t'. addTask t te = Inr t' \<and> wheel_inv t' \<and> key_index_exact t'
           else addTask t te = Inl (IndexOutOfRange (pos te) (length (slots t)))) \<and>
     (\<forall>k. \<exists>t'. removeTask t k = Inr t' \<and> wheel_inv t' \<and> key_index_exact t') \<and>
     (\<exists>t' ls. tick t = Inr (t', ls) \<and> wheel_inv t' \<and> key_index_exact t')"
proof (intro conjI allI)
  show "key_index_exact t" by (rule wheel_inv_exact[OF assms])
next
  fix te :: "'a TaskElement"
  show "if in_range t (pos te)
           then \<exists>t'. addTask t te = Inr t' \<and> wheel_inv t' \<and> key_index_exact t'
           else addTask t te = Inl (IndexOutOfRange (pos te) (length (slots t)))"
    using addTask_inv[OF assms, of te] addTask_panic[of t te] wheel_inv_exact by auto
next
  fix k
  show "\<exists>t'. removeTask t k = Inr t' \<and> wheel_inv t' \<and> key_index_exact t'"
    using removeTask_inv[OF assms, of k] wheel_inv_exact by auto
next
  show "\<exists>t' ls. tick t = Inr (t', ls) \<and> wheel_inv t' \<and> key_index_exact t'"
    using tick_inv[OF assms] wheel_inv_exact by blast
qed

theorem wheel_operations_preserve_invariant_witness:
  "wheel_inv example_wheel \<and> key_index_exact example_wheel \<and>
   in_range example_wheel (pos \<lparr>task = 9::nat, pos = 3, cycle = 0, key = ''a''\<rparr>) \<and>
   (\<exists>t'. addTask example_wheel \<lparr>task = 9, pos = 3, cycle = 0, key = ''a''\<rparr> = Inr t' \<and>
         wheel_inv t' \<and> key_index_exact t') \<and>
   (\<exists>t'. removeTask example_wheel ''a'' = Inr t' \<and> wheel_inv t' \<and> key_index_exact t') \<and>
   (\<exists>t' ls. tick example_wheel = Inr (t', ls) \<and> wheel_inv t' \<and> key_index_exact t')"
proof -
  have h: "wheel_inv example_wheel" by (rule example_wheel_inv)
  have r: "in_range example_wheel (pos \<lparr>task = 9::nat, pos = 3, cycle = 0, key = ''a''\<rparr>)"
    by (simp add: in_range_def example_wheel_def)
  from wheel_operations_preserve_invariant[OF h] r show ?thesis using h
    by (auto split: if_splits)
qed

text \<open>
  Claim C9. There are \<open>AddTask\<close> calls with an instant in the past for which the slot
  access of \<open>addTask\<close> is out of bounds: when \<open>delay \<le> - interval\<close>, the sum
  \<open>curSlot + delay / interval\<close> is negative and is not a multiple of the slot count, the
  computed position is negative, \<open>addTask\<close> panics on \<open>slots[pos]\<close> and the control loop
  stops. The witness is a task one tick in the past on a wheel at slot 0.
\<close>

theorem past_fireAt_panics:
  assumes inv: "wheel_inv t" and fd: "fits_int64 delay"
    and fp: "fits_int64 (interval t * int (length (slots t)))"
    and d: "delay \<le> - interval t"
    and neg: "curSlot t + go_div delay (interval t) < 0"
    and nd: "\<not> int (length (slots t)) dvd (curSlot t + go_div delay (interval t))"
  shows "\<exists>te. AddTask t k f delay = Inr te \<and> pos te < 0 \<and>
           addTask t te = Inl (IndexOutOfRange (pos te) (length (slots t))) \<and>
           \<not> running (serve \<lparr>wheel = t, launched = ls, running = True\<rparr> (Add te))"
proof -
  let ?n = "int (length (slots t))"
  let ?s = "curSlot t + go_div delay (interval t)"
  have n: "0 < ?n" and iv: "0 < interval t" using inv by (auto simp: wheel_inv_def in_range_def)
  have dn: "delay < 0" using d iv by linarith
  have fs: "int64 ?s = ?s" by (rule int64_id[OF sum_fits_neg[OF inv fd dn fp]])
  let ?te = "\<lparr>task = f, pos = go_mod (int64 ?s) ?n,
               cycle = go_div delay (interval t * ?n), key = k\<rparr>"
  have A: "AddTask t k f delay = Inr ?te" by (rule AddTask_value[OF inv fd fp])
  have B: "pos ?te < 0" using go_mod_neg_iff[OF n] neg nd fs by simp
  then have "\<not> in_range t (pos ?te)" by (simp add: in_range_def)
  then have C: "addTask t ?te = Inl (IndexOutOfRange (pos ?te) (length (slots t)))"
    by (rule addTask_panic)
  then have D: "\<not> running (serve \<lparr>wheel = t, launched = ls, running = True\<rparr> (Add ?te))"
    by (simp add: serve_def)
  from A B C D show ?thesis by blast
qed

theorem past_fireAt_panics_witness:
  "wheel_inv example_wheel \<and> fits_int64 (- 100000000) \<and>
   fits_int64 (interval example_wheel * int (length (slots example_wheel))) \<and>
   (- 100000000 :: int) \<le> - interval example_wheel \<and>
   curSlot example_wheel + go_div (- 100000000) (interval example_wheel) < 0 \<and>
   \<not> int (length (slots example_wheel)) dvd
        (curSlot example_wheel + go_div (- 100000000) (interval example_wheel)) \<and>
   AddTask example_wheel ''late'' 9 (- 100000000) =
      Inr \<lparr>task = 9, pos = - 1, cycle = 0, key = ''late''\<rparr> \<and>
   addTask example_wheel \<lparr>task = 9, pos = - 1, cycle = 0, key = ''late''\<rparr> =
      Inl (IndexOutOfRange (- 1) 10) \<and>
   \<not> running (run example_wheel [Add \<lparr>task = 9, pos = - 1, cycle = 0, key = ''late''\<rparr>, Tick])"
proof -
  have h1: "wheel_inv example_wheel" by (rule example_wheel_inv)
  have f1: "fits_int64 (- 100000000)" by (simp add: fits_int64_def)
  have f2: "fits_int64 (interval example_wheel * int (length (slots example_wheel)))"
    by (simp add: fits_int64_def example_wheel_def)
  have h2: "(- 100000000 :: int) \<le> - interval example_wheel" by (simp add: example_wheel_def)
  have h3: "curSlot example_wheel + go_div (- 100000000) (interval example_wheel) < 0"
    by (simp add: example_wheel_def go_div_def)
  have h4: "\<not> int (length (slots example_wheel)) dvd
        (curSlot example_wheel + go_div (- 100000000) (interval example_wheel))"
    by (simp add: example_wheel_def go_div_def)
  have v: "AddTask example_wheel ''late'' (9::nat) (- 100000000) =
      Inr \<lparr>task = 9, pos = - 1, cycle = 0, key = ''late''\<rparr>"
    by (simp add: AddTask_def getPosAndCircle_def example_wheel_def go_div_def go_mod_def
        int64_def)
  from past_fireAt_panics[OF h1 f1 f2 h2 h3 h4, of "''late''" "9::nat" "[]"] v
  have "addTask example_wheel \<lparr>task = 9, pos = - 1, cycle = 0, key = ''late''\<rparr> =
      Inl (IndexOutOfRange (- 1) 10)"
    "\<not> running (serve \<lparr>wheel = example_wheel, launched = [], running = True\<rparr>
         (Add \<lparr>task = 9::nat, pos = - 1, cycle = 0, key = ''late''\<rparr>))"
    by (auto simp: example_wheel_def)
  then show ?thesis using h1 f1 f2 h2 h3 h4 v by (simp add: run_def serve_def)
qed

section \<open>Properties of the worker pool\<close>

lemma executeTask_from_bound:
  "snd (executeTask_from t pool i) \<le> nat (retryCount pool + 1 - int i)"
proof (induction t pool i rule: executeTask_from.induct)
  case (1 t pool i)
  show ?case
  proof (cases "int i \<le> retryCount pool")
    case False
    then show ?thesis by (subst executeTask_from.simps) simp
  next
    case True
    show ?thesis
    proof (cases "attempt_of t pool i")
      case None
      with True show ?thesis by (subst executeTask_from.simps) simp
    next
      case (Some a)
      obtain res e where a: "a = (res, e)" by (cases a)
      show ?thesis
      proof (cases "e = None \<or> int i = retryCount pool")
        case stop: True
        with True Some a show ?thesis by (subst executeTask_from.simps) auto
      next
        case go: False
        from "1.IH"[OF True Some a[symmetric] go]
        have "snd (executeTask_from t pool (Suc i)) \<le> nat (retryCount pool + 1 - int (Suc i))" .
        with True Some a go show ?thesis
          by (subst executeTask_from.simps) (auto split: prod.splits)
      qed
    qed
  qed
qed

text \<open>Attempts i, ..., j-1 return an error and attempt j returns none.\<close>
lemma executeTask_from_first_success:
  assumes "int j \<le> retryCount pool" "i \<le> j"
    "\<forall>k. i \<le> k \<and> k < j \<longrightarrow> (\<exists>r e. attempt_of t pool k = Some (r, Some e))"
    "attempt_of t pool j = Some (res, None)"
  shows "executeTask_from t pool i = (Some (res, None), Suc (j - i))"
  using assms
proof (induction "j - i" arbitrary: i)
  case 0
  then have "i = j" by simp
  with "0.prems" show ?case by (subst executeTask_from.simps) simp
next
  case (Suc d)
  then have lt: "i < j" by simp
  with Suc.prems obtain r e where a: "attempt_of t pool i = Some (r, Some e)" by blast
  have ne: "int i \<noteq> retryCount pool" "int i \<le> retryCount pool" using lt Suc.prems(1) by auto
  have "executeTask_from t pool (Suc i) = (Some (res, None), Suc (j - Suc i))"
    using Suc.hyps Suc.prems lt by (intro Suc.hyps(1)) auto
  with a ne lt show ?case by (subst executeTask_from.simps) (simp add: Suc_diff_Suc)
qed

text \<open>Every attempt returns an error: the last one is what is returned.\<close>
lemma executeTask_from_all_fail:
  assumes "retryCount pool = int m" "i \<le> m"
    "\<forall>k. i \<le> k \<and> k < m \<longrightarrow> (\<exists>r e. attempt_of t pool k = Some (r, Some e))"
    "attempt_of t pool m = Some (res, e)"
  shows "executeTask_from t pool i = (Some (res, e), Suc (m - i))"
  using assms
proof (induction "m - i" arbitrary: i)
  case 0
  then have "i = m" by simp
  with "0.prems" show ?case by (subst executeTask_from.simps) simp
next
  case (Suc d)
  then have lt: "i < m" by simp
  with Suc.prems obtain r e' where a: "attempt_of t pool i = Some (r, Some e')" by blast
  have ne: "int i \<noteq> retryCount pool" "int i \<le> retryCount pool" using lt Suc.prems(1) by auto
  have "executeTask_from t pool (Suc i) = (Some (res, e), Suc (m - Suc i))"
    using Suc.hyps Suc.prems lt by (intro Suc.hyps(1)) auto
  with a ne lt show ?case by (subst executeTask_from.simps) (simp add: Suc_diff_Suc)
qed

lemma executeTask_negative:
  "retryCount pool < 0 \<Longrightarrow> executeTask t pool = (Some (None, None), 0)"
  unfolding executeTask_def by (subst executeTask_from.simps) simp

lemma grow_fields:
  "maxWorkers (grow p k) = maxWorkers p \<and> minWorkers (grow p k) = minWorkers p \<and>
   taskQueue (grow p k) = taskQueue p \<and> taskQueueSize (grow p k) = taskQueueSize p \<and>
   inHand (grow p k) = inHand p \<and> retryCount (grow p k) = retryCount p \<and>
   timeout (grow p k) = timeout p \<and> resultCallback (grow p k) = resultCallback p \<and>
   errCallback (grow p k) = errCallback p \<and>
   spawned (grow p k) = spawned p + k \<and>
   workers (grow p k) = workers p @ map newWorker [spawned p..<spawned p + k] \<and>
   workerStack (grow p k) = workerStack p @ [length (workers p)..<length (workers p) + k]"
proof (induction k arbitrary: p)
  case 0
  then show ?case by simp
next
  case (Suc k)
  show ?case
    unfolding grow.simps
    apply (simp only: Suc.IH)
    apply (simp add: upt_conv_Cons del: upt_Suc)
    done
qed

lemma sort_perm_upt:
  assumes "distinct xs" "\<forall>i \<in> set xs. i < n" "length xs = n"
  shows "sort xs = [0..<n]"
proof -
  have "set xs \<subseteq> {0..<n}" using assms(2) by auto
  moreover have "card (set xs) = card {0..<n}"
    using assms(1,3) by (simp add: distinct_card)
  ultimately have "set xs = {0..<n}" by (intro card_subset_eq) auto
  then have "set (sort xs) = set [0..<n]" by simp
  moreover have "distinct (sort xs)" using assms(1) by simp
  ultimately show ?thesis
    by (intro sorted_distinct_set_unique) auto
qed

lemma go_div_pos2: "0 \<le> a \<Longrightarrow> go_div a 2 = a div 2"
  by (cases "a = 0") (simp_all add: go_div_def)

lemma go_div_pos4: "0 \<le> a \<Longrightarrow> go_div a 4 = a div 4"
  by (cases "a = 0") (simp_all add: go_div_def)

lemma adjust_down:
  assumes inv: "pool_inv p" and q: "taskQueue p = []"
    and idle: "length (workerStack p) = length (workers p)"
    and gt: "int (length (workers p)) > minWorkers p"
  shows "adjustWorkers p =
     Inr (p\<lparr>workers := take (length (workers p) - nat ((int (length (workers p)) - minWorkers p + 1) div 2)) (workers p),
           workerStack := [0..<length (workers p) - nat ((int (length (workers p)) - minWorkers p + 1) div 2)]\<rparr>)"
proof -
  let ?n = "length (workers p)"
  let ?r = "(int ?n - minWorkers p + 1) div 2"
  have m: "0 \<le> minWorkers p" using inv by (simp add: pool_inv_def)
  have r: "go_div (int ?n - minWorkers p + 1) 2 = ?r" using gt by (intro go_div_pos2) simp
  have r1: "1 \<le> ?r" "?r \<le> int ?n - minWorkers p" "?r \<le> int ?n" using gt m by linarith+
  have g: "0 \<le> go_div (int ?n * 3) 4" by (simp add: go_div_pos4)
  have up: "\<not> (int (length (taskQueue p)) > go_div (int ?n * 3) 4 \<and> int ?n < maxWorkers p)"
    using q g by simp
  have st: "sort (workerStack p) = [0..<?n]"
    using inv idle by (intro sort_perm_upt) (auto simp: pool_inv_def)
  have nn: "nat (int ?n - ?r) = ?n - nat ?r" using r1 by linarith
  have "adjustWorkers p =
      Inr (p\<lparr>workers := take (nat (int ?n - ?r)) (workers p),
            workerStack := take (nat (int (length (workerStack p)) - ?r)) (sort (workerStack p))\<rparr>)"
    unfolding adjustWorkers_def Let_def if_not_P[OF up] r
    using q idle gt r1 by simp
  then show ?thesis using st nn idle r1 by (simp add: take_upt)
qed

lemma adjust_up:
  assumes c: "int (length (taskQueue p)) > go_div (int (length (workers p)) * 3) 4"
     "int (length (workers p)) < maxWorkers p"
  shows "adjustWorkers p =
     Inr (grow p (nat (min (int (length (workers p)) * 2) (maxWorkers p) - int (length (workers p)))))"
  using c by (simp add: adjustWorkers_def Let_def)

lemma adjust_same:
  assumes "\<not> (int (length (taskQueue p)) > go_div (int (length (workers p)) * 3) 4 \<and>
              int (length (workers p)) < maxWorkers p)"
    "\<not> (taskQueue p = [] \<and> length (workerStack p) = length (workers p) \<and>
        int (length (workers p)) > minWorkers p)"
  shows "adjustWorkers p = Inr p"
  using assms by (auto simp: adjustWorkers_def Let_def)

lemma foldl_options_fixed:
  "workers (foldl (\<lambda>p opt. apply_option opt p) p0 opts) = workers p0 \<and>
   workerStack (foldl (\<lambda>p opt. apply_option opt p) p0 opts) = workerStack p0 \<and>
   taskQueue (foldl (\<lambda>p opt. apply_option opt p) p0 opts) = taskQueue p0 \<and>
   maxWorkers (foldl (\<lambda>p opt. apply_option opt p) p0 opts) = maxWorkers p0 \<and>
   errCallback (foldl (\<lambda>p opt. apply_option opt p) p0 opts) = errCallback p0 \<and>
   inHand (foldl (\<lambda>p opt. apply_option opt p) p0 opts) = inHand p0 \<and>
   spawned (foldl (\<lambda>p opt. apply_option opt p) p0 opts) = spawned p0"
proof (induction opts arbitrary: p0)
  case Nil
  then show ?case by simp
next
  case (Cons a opts)
  show ?case by (cases a) (simp_all add: Cons.IH)
qed

lemma NewGoroutinePool_Inr:
  assumes "NewGoroutinePool m opts = Inr p"
  shows "pool_inv p \<and> maxWorkers p = m \<and> \<not> errCallback p \<and> taskQueue p = [] \<and>
     inHand p = None \<and> 0 \<le> taskQueueSize p \<and>
     int (length (workers p)) = minWorkers p \<and> workerStack p = [0..<length (workers p)]"
proof -
  let ?p0 = "\<lparr> workers = [], workerStack = [], maxWorkers = m, minWorkers = m,
                     taskQueue = [], taskQueueSize = 1000000, retryCount = 0, timeout = 0,
                     resultCallback = False, errCallback = False,
                     adjustInterval = 1000000000, inHand = None, spawned = 0 \<rparr> :: 'a GoroutinePool"
  let ?q = "foldl (\<lambda>p opt. apply_option opt p) ?p0 opts"
  from assms have ok: "0 \<le> taskQueueSize ?q" "0 \<le> minWorkers ?q"
    and p: "p = ?q\<lparr> workers := map newWorker [0..<nat (minWorkers ?q)],
                         workerStack := [0..<nat (minWorkers ?q)],
                         spawned := nat (minWorkers ?q) \<rparr>"
    by (auto simp: NewGoroutinePool_def Let_def makechan_ok_def makeslice_ok_def split: if_splits)
  have f: "maxWorkers ?q = m" "\<not> errCallback ?q" "taskQueue ?q = []" "inHand ?q = None"
    using foldl_options_fixed[of ?p0 opts] by simp_all
  have s: "sorted_wrt (<) (map serial (map (newWorker :: nat \<Rightarrow> 'a Worker) [0..<nat (minWorkers ?q)]))"
    by (simp add: comp_def newWorker_def sorted_wrt_map[symmetric] sorted_wrt_upt[unfolded sorted_wrt_map])
  show ?thesis
    unfolding p pool_inv_def using ok f s
    by (simp add: newWorker_def)
qed

lemma dispatch_inv:
  assumes inv: "pool_inv p"
  shows "\<exists>p'. pool_step p Dispatch = Inr p' \<and> pool_inv p' \<and> same_config p p' \<and>
           length (workers p') = length (workers p)"
proof (cases "inHand p")
  case None
  then show ?thesis using inv by (simp add: pool_step_def same_config_def)
next
  case (Some t)
  show ?thesis
  proof (cases "workerStack p = []")
    case True
    with Some show ?thesis using inv by (simp add: pool_step_def same_config_def)
  next
    case False
    let ?i = "last (workerStack p)"
    let ?p' = "p\<lparr>workerStack := butlast (workerStack p), inHand := None,
                  workers := (workers p)[?i := (workers p ! ?i)\<lparr>wTaskQueue := [t]\<rparr>]\<rparr>"
    have il: "?i < length (workers p)" using inv False by (simp add: pool_inv_def)
    have st: "pool_step p Dispatch = Inr ?p'"
      using Some False il by (simp add: pool_step_def popWorker_def)
    have ws: "workerStack p = butlast (workerStack p) @ [?i]" using False by simp
    have d: "distinct (butlast (workerStack p))" "?i \<notin> set (butlast (workerStack p))"
      using inv ws by (metis distinct_butlast pool_inv_def, metis distinct_append distinct.simps(2) 
          disjoint_iff list.set_intros(1) pool_inv_def)
    have ser: "map serial ((workers p)[?i := (workers p ! ?i)\<lparr>wTaskQueue := [t]\<rparr>]) = map serial (workers p)"
      using il by (simp add: map_update list_update_same_conv)
    have "pool_inv ?p'"
      unfolding pool_inv_def
    proof (intro conjI ballI allI impI)
      show "0 \<le> minWorkers ?p'" using inv by (simp add: pool_inv_def)
      show "distinct (workerStack ?p')" using d by simp
      show "sorted_wrt (<) (map serial (workers ?p'))" using inv ser by (simp add: pool_inv_def)
    next
      fix i assume "i \<in> set (workerStack ?p')"
      then have i: "i \<in> set (butlast (workerStack p))" by simp
      then have "i \<in> set (workerStack p)" by (rule in_set_butlastD)
      then have "i < length (workers p)" "wTaskQueue (workers p ! i) = []"
        using inv by (simp_all add: pool_inv_def)
      moreover have "i \<noteq> ?i" using i d(2) by auto
      ultimately show "i < length (workers ?p')" "wTaskQueue (workers ?p' ! i) = []" by simp_all
    next
      fix i assume "i < length (workers ?p')"
      then have i: "i < length (workers p)" by simp
      then have "serial (workers p ! i) < spawned p" using inv by (simp add: pool_inv_def)
      then show "serial (workers ?p' ! i) < spawned ?p'" using i
        by (cases "i = ?i") simp_all
    qed
    with st show ?thesis by (intro exI[of _ ?p']) (simp add: same_config_def)
  qed
qed

lemma finish_inv:
  assumes inv: "pool_inv p"
  shows "\<exists>p'. pool_step p (Finish i) = Inr p' \<and> pool_inv p' \<and> same_config p p' \<and>
           length (workers p') = length (workers p)"
proof (cases "i < length (workers p) \<and> wTaskQueue (workers p ! i) \<noteq> []")
  case False
  then show ?thesis using inv by (auto simp: pool_step_def same_config_def)
next
  case True
  let ?p' = "p\<lparr>workers := (workers p)[i := (workers p ! i)\<lparr>wTaskQueue := []\<rparr>],
               workerStack := workerStack p @ [i]\<rparr>"
  have st: "pool_step p (Finish i) = Inr ?p'"
    using True by (simp add: pool_step_def pushWorker_def)
  have ni: "i \<notin> set (workerStack p)" using inv True by (auto simp: pool_inv_def)
  have ser: "map serial ((workers p)[i := (workers p ! i)\<lparr>wTaskQueue := []\<rparr>]) = map serial (workers p)"
    using True by (simp add: map_update list_update_same_conv)
  have "pool_inv ?p'"
    unfolding pool_inv_def
  proof (intro conjI ballI allI impI)
    show "0 \<le> minWorkers ?p'" using inv by (simp add: pool_inv_def)
    show "distinct (workerStack ?p')" using inv ni by (simp add: pool_inv_def)
    show "sorted_wrt (<) (map serial (workers ?p'))" using inv ser by (simp add: pool_inv_def)
  next
    fix j assume j: "j \<in> set (workerStack ?p')"
    show "j < length (workers ?p')" using j inv True by (auto simp: pool_inv_def)
    show "wTaskQueue (workers ?p' ! j) = []"
    proof (cases "j = i")
      case True
      with \<open>i < length (workers p) \<and> wTaskQueue (workers p ! i) \<noteq> []\<close> show ?thesis by simp
    next
      case False
      with j have "j \<in> set (workerStack p)" by simp
      with inv have "wTaskQueue (workers p ! j) = []" by (simp add: pool_inv_def)
      with False show ?thesis by simp
    qed
  next
    fix j assume "j < length (workers ?p')"
    then have j: "j < length (workers p)" by simp
    then have "serial (workers p ! j) < spawned p" using inv by (simp add: pool_inv_def)
    then show "serial (workers ?p' ! j) < spawned ?p'" using j
      by (cases "j = i") simp_all
  qed
  with st show ?thesis by (intro exI[of _ ?p']) (simp add: same_config_def)
qed

lemma submit_receive_inv:
  assumes inv: "pool_inv p" and ev: "ev = Submit t \<or> ev = Receive"
  shows "\<exists>p'. pool_step p ev = Inr p' \<and> pool_inv p' \<and> same_config p p' \<and>
           length (workers p') = length (workers p)"
  using inv ev
  by (auto simp: pool_step_def same_config_def pool_inv_def split: option.splits list.splits)

lemma grow_inv:
  assumes inv: "pool_inv p"
  shows "pool_inv (grow p k)"
proof -
  let ?n = "length (workers p)"
  note g = grow_fields[of p k]
  have ws: "workers (grow p k) = workers p @ map newWorker [spawned p..<spawned p + k]"
    and st: "workerStack (grow p k) = workerStack p @ [?n..<?n + k]"
    and sp: "spawned (grow p k) = spawned p + k"
    and mn: "minWorkers (grow p k) = minWorkers p"
    using g by simp_all
  have old1: "\<And>i. i \<in> set (workerStack p) \<Longrightarrow> i < ?n"
    and old2: "\<And>i. i \<in> set (workerStack p) \<Longrightarrow> wTaskQueue (workers p ! i) = []"
    using inv by (simp_all add: pool_inv_def)
  have serial_new: "map serial (map (newWorker :: nat \<Rightarrow> 'a Worker) [spawned p..<spawned p + k])
       = [spawned p..<spawned p + k]"
    by (simp add: comp_def newWorker_def)
  show ?thesis unfolding pool_inv_def
  proof (intro conjI ballI allI impI)
    show "0 \<le> minWorkers (grow p k)" using inv mn by (simp add: pool_inv_def)
    have "\<And>x. x \<in> set (workerStack p) \<Longrightarrow> \<not> ?n \<le> x" using old1 by fastforce
    then show "distinct (workerStack (grow p k))"
      using inv unfolding st by (auto simp: pool_inv_def)
    have lt: "\<And>i xa. i < ?n \<Longrightarrow> spawned p \<le> xa \<Longrightarrow> serial (workers p ! i) < xa"
    proof -
      fix i xa assume "i < ?n" "spawned p \<le> xa"
      moreover from \<open>i < ?n\<close> have "serial (workers p ! i) < spawned p"
        using inv by (simp add: pool_inv_def)
      ultimately show "serial (workers p ! i) < xa" by linarith
    qed
    show "sorted_wrt (<) (map serial (workers (grow p k)))"
      unfolding ws map_append serial_new sorted_wrt_append
      using inv lt by (auto simp: pool_inv_def in_set_conv_nth)
  next
    fix i assume "i \<in> set (workerStack (grow p k))"
    then consider "i \<in> set (workerStack p)" | "?n \<le> i" "i < ?n + k" unfolding st by auto
    then show "i < length (workers (grow p k))" unfolding ws using old1[of i] by cases auto
  next
    fix i assume "i \<in> set (workerStack (grow p k))"
    then consider "i \<in> set (workerStack p)" | "?n \<le> i" "i < ?n + k" unfolding st by auto
    then show "wTaskQueue (workers (grow p k) ! i) = []"
    proof cases
      case 1
      with old1[of i] old2[of i] show ?thesis unfolding ws by (simp add: nth_append)
    next
      case 2
      then show ?thesis unfolding ws by (simp add: nth_append newWorker_def)
    qed
  next
    fix i assume i: "i < length (workers (grow p k))"
    show "serial (workers (grow p k) ! i) < spawned (grow p k)"
    proof (cases "i < ?n")
      case True
      then have "serial (workers p ! i) < spawned p" using inv by (simp add: pool_inv_def)
      with True show ?thesis unfolding ws sp by (simp add: nth_append)
    next
      case False
      with i show ?thesis unfolding ws sp by (simp add: nth_append newWorker_def)
    qed
  qed
qed

lemma shrink_inv:
  assumes inv: "pool_inv p" and idle: "length (workerStack p) = length (workers p)"
    and that: "m = length (workers p) - r"
  shows "pool_inv (p\<lparr>workers := take m (workers p), workerStack := [0..<length (workers p) - r]\<rparr>)"
      (is "pool_inv ?p'")
proof -
  let ?n = "length (workers p)"
  have "sort (workerStack p) = [0..<?n]"
    using inv idle by (intro sort_perm_upt) (auto simp: pool_inv_def)
  then have "set (workerStack p) = {0..<?n}" by (metis set_sort set_upt)
  then have all: "\<And>i. i < ?n \<Longrightarrow> wTaskQueue (workers p ! i) = []"
    using inv by (auto simp: pool_inv_def)
  show ?thesis unfolding pool_inv_def
  proof (intro conjI ballI allI impI)
    show "0 \<le> minWorkers ?p'" using inv by (simp add: pool_inv_def)
    show "distinct (workerStack ?p')" by simp
    show "sorted_wrt (<) (map serial (workers ?p'))"
      using inv by (simp add: pool_inv_def take_map[symmetric] sorted_wrt_take)
  next
    fix i assume i: "i \<in> set (workerStack ?p')"
    then show "i < length (workers ?p')" using that by auto
    from i show "wTaskQueue (workers ?p' ! i) = []" using that all by auto
  next
    fix i assume "i < length (workers ?p')"
    then show "serial (workers ?p' ! i) < spawned ?p'" using inv that by (auto simp: pool_inv_def)
  qed
qed

lemma adjust_inv:
  assumes inv: "pool_inv p"
  shows "\<exists>p'. pool_step p Adjust = Inr p' \<and> pool_inv p' \<and> same_config p p' \<and>
           (within_bounds p \<longrightarrow> within_bounds p')"
proof -
  let ?n = "length (workers p)"
  let ?up = "int (length (taskQueue p)) > go_div (int ?n * 3) 4 \<and> int ?n < maxWorkers p"
  let ?down = "taskQueue p = [] \<and> length (workerStack p) = ?n \<and> int ?n > minWorkers p"
  have step: "pool_step p Adjust = adjustWorkers p" by (simp add: pool_step_def)
  consider (up) ?up | (down) "\<not> ?up" ?down | (same) "\<not> ?up" "\<not> ?down" by blast
  then show ?thesis
  proof cases
    case up
    let ?k = "nat (min (int ?n * 2) (maxWorkers p) - int ?n)"
    have a: "adjustWorkers p = Inr (grow p ?k)" using up by (intro adjust_up) auto
    note g = grow_fields[of p ?k]
    have len: "length (workers (grow p ?k)) = ?n + ?k" using g by simp
    have "int (?n + ?k) = min (int ?n * 2) (maxWorkers p)" using up by auto
    then have b: "within_bounds p \<longrightarrow> within_bounds (grow p ?k)"
      using g up unfolding within_bounds_def len by auto
    have "same_config p (grow p ?k)" using g by (simp add: same_config_def)
    with a b grow_inv[OF inv, of ?k] step show ?thesis by auto
  next
    case down
    let ?r = "nat ((int ?n - minWorkers p + 1) div 2)"
    let ?p' = "p\<lparr>workers := take (?n - ?r) (workers p), workerStack := [0..<?n - ?r]\<rparr>"
    have a: "adjustWorkers p = Inr ?p'" using down by (intro adjust_down[OF inv]) auto
    have i: "pool_inv ?p'" using down by (intro shrink_inv[OF inv]) auto
    have m: "0 \<le> minWorkers p" using inv by (simp add: pool_inv_def)
    have "minWorkers p \<le> int (?n - ?r)" using down m by linarith
    then have b: "within_bounds p \<longrightarrow> within_bounds ?p'"
      unfolding within_bounds_def by auto
    have "same_config p ?p'" by (simp add: same_config_def)
    with a i b step show ?thesis by auto
  next
    case same
    then have "adjustWorkers p = Inr p" by (intro adjust_same) auto
    with inv step show ?thesis by (auto simp: same_config_def)
  qed
qed

lemma pool_step_inv:
  assumes inv: "pool_inv p"
  shows "\<exists>p'. pool_step p ev = Inr p' \<and> pool_inv p' \<and> same_config p p' \<and>
           (within_bounds p \<longrightarrow> within_bounds p')"
proof (cases ev)
  case (Submit t)
  with submit_receive_inv[OF inv, of ev t] show ?thesis
    by (auto simp: within_bounds_def same_config_def)
next
  case Receive
  with submit_receive_inv[OF inv, of ev] show ?thesis
    by (auto simp: within_bounds_def same_config_def)
next
  case Dispatch
  with dispatch_inv[OF inv] show ?thesis
    by (auto simp: within_bounds_def same_config_def)
next
  case (Finish i)
  with finish_inv[OF inv, of i] show ?thesis
    by (auto simp: within_bounds_def same_config_def)
next
  case Adjust
  with adjust_inv[OF inv] show ?thesis by simp
qed

lemma pool_run_inv:
  assumes "pool_inv p"
  shows "\<exists>p'. pool_run p evs = Inr p' \<and> pool_inv p' \<and> same_config p p' \<and>
           (within_bounds p \<longrightarrow> within_bounds p')"
  using assms
proof (induction evs arbitrary: p)
  case Nil
  then show ?case by (simp add: same_config_def)
next
  case (Cons ev evs)
  from pool_step_inv[OF Cons.prems, of ev] obtain p1 where p1: "pool_step p ev = Inr p1"
    "pool_inv p1" "same_config p p1" "within_bounds p \<longrightarrow> within_bounds p1" by blast
  from Cons.IH[OF p1(2)] obtain p' where p': "pool_run p1 evs = Inr p'" "pool_inv p'"
    "same_config p1 p'" "within_bounds p1 \<longrightarrow> within_bounds p'" by blast
  have "same_config p p'" using p1(3) p'(3) by (simp add: same_config_def)
  with p1 p' show ?case by auto
qed

lemma foldl_options_queue:
  "taskQueueSize (foldl (\<lambda>p opt. apply_option opt p) p0 opts) =
     foldl (\<lambda>s opt. case opt of WithTaskQueueSize n \<Rightarrow> n | _ \<Rightarrow> s) (taskQueueSize p0) opts"
proof (induction opts arbitrary: p0)
  case Nil
  then show ?case by simp
next
  case (Cons a opts)
  show ?case by (cases a) (simp_all add: Cons.IH)
qed

lemma NewGoroutinePool_queue:
  assumes "NewGoroutinePool m opts = Inr p"
  shows "taskQueueSize p = configuredQueueSize opts"
proof -
  let ?p0 = "\<lparr> workers = [], workerStack = [], maxWorkers = m, minWorkers = m,
                     taskQueue = [], taskQueueSize = 1000000, retryCount = 0, timeout = 0,
                     resultCallback = False, errCallback = False,
                     adjustInterval = 1000000000, inHand = None, spawned = 0 \<rparr> :: 'a GoroutinePool"
  let ?q = "foldl (\<lambda>p opt. apply_option opt p) ?p0 opts"
  from assms have "taskQueueSize p = taskQueueSize ?q"
    by (auto simp: NewGoroutinePool_def Let_def makechan_ok_def makeslice_ok_def split: if_splits)
  also have "\<dots> = configuredQueueSize opts"
    unfolding configuredQueueSize_def foldl_options_queue by simp
  finally show ?thesis .
qed

lemma ceiling_half: "\<lceil>real_of_int x / 2\<rceil> = (x + 1) div 2"
proof -
  have "\<lceil>real_of_int x / real_of_int 2\<rceil> = - (- x div 2)" by (rule ceiling_divide_eq_div)
  then have "\<lceil>real_of_int x / 2\<rceil> = - (- x div 2)" by simp
  also have "\<dots> = (x + 1) div 2" by presburger
  finally show ?thesis .
qed

lemma upt4: "[0..<4] = [0, 1, 2, Suc 2]"
  by (simp add: upt_rec numeral_nat)

lemma idle_pool_inv: "pool_inv idle_pool"
  by (simp add: pool_inv_def idle_pool_def newWorker_def upt4 less_Suc_eq numeral_nat)

text \<open>With a timeout configured, an attempt whose task is done before the deadline
  never returns, and a negative retry count runs no attempt at all.\<close>

lemma attempt_in_time_blocks:
  "0 < timeout pool \<Longrightarrow> duration (t i) < timeout pool \<Longrightarrow> attempt_of t pool i = None"
  by (simp add: attempt_of_def executeTaskWithTimeout_def)

text \<open>
  The retry loop. \<open>executeTask\<close> makes at most \<open>retryCount + 1\<close> attempts (none when that is
  not positive). When the attempts before attempt \<open>j \<le> retryCount\<close> return an error and
  attempt \<open>j\<close> returns none, it returns the result of attempt \<open>j\<close> after exactly
  \<open>j + 1\<close> attempts, and the worker calls the result callback once, when one is set,
  and no error callback; with \<open>j = retryCount\<close> this is the task that fails
  \<open>retryCount\<close> times and succeeds on the final attempt. When all \<open>retryCount + 1\<close>
  attempts return an error, the error of the last one is returned.
\<close>

lemma executeTask_retries:
  "snd (executeTask t pool) \<le> nat (retryCount pool + 1) \<and>
   (\<forall>j res. int j \<le> retryCount pool \<and>
        (\<forall>k<j. \<exists>r e. attempt_of t pool k = Some (r, Some e)) \<and>
        attempt_of t pool j = Some (res, None) \<longrightarrow>
        executeTask t pool = (Some (res, None), Suc j) \<and>
        start t pool = Some (if resultCallback pool then [ResultCallback res] else [])) \<and>
   (\<forall>m res e. retryCount pool = int m \<and>
        (\<forall>k<m. \<exists>r e. attempt_of t pool k = Some (r, Some e)) \<and>
        attempt_of t pool m = Some (res, Some e) \<longrightarrow>
        executeTask t pool = (Some (res, Some e), Suc m))"
proof (intro conjI allI impI)
  show "snd (executeTask t pool) \<le> nat (retryCount pool + 1)"
    using executeTask_from_bound[of t pool 0] by (simp add: executeTask_def)
next
  fix j res
  assume a: "int j \<le> retryCount pool \<and>
        (\<forall>k<j. \<exists>r e. attempt_of t pool k = Some (r, Some e)) \<and>
        attempt_of t pool j = Some (res, None)"
  then have e: "executeTask t pool = (Some (res, None), Suc j)"
    unfolding executeTask_def
    using executeTask_from_first_success[of j pool 0 t res] by simp
  then show "executeTask t pool = (Some (res, None), Suc j)" .
  from e show "start t pool = Some (if resultCallback pool then [ResultCallback res] else [])"
    by (simp add: start_def handleResult_def)
next
  fix m res e
  assume a: "retryCount pool = int m \<and>
        (\<forall>k<m. \<exists>r e. attempt_of t pool k = Some (r, Some e)) \<and>
        attempt_of t pool m = Some (res, Some e)"
  then show "executeTask t pool = (Some (res, Some e), Suc m)"
    unfolding executeTask_def
    using executeTask_from_all_fail[of pool m 0 t res "Some e"] by simp
qed

lemma executeTask_retries_example:
  "int 2 \<le> retryCount (result_only_pool\<lparr>retryCount := 2\<rparr>) \<and>
   attempt_of flaky_task (result_only_pool\<lparr>retryCount := 2\<rparr>) 0 = Some (None, Some ''boom'') \<and>
   attempt_of flaky_task (result_only_pool\<lparr>retryCount := 2\<rparr>) 1 = Some (None, Some ''boom'') \<and>
   attempt_of flaky_task (result_only_pool\<lparr>retryCount := 2\<rparr>) 2 = Some (Some 42, None) \<and>
   executeTask flaky_task (result_only_pool\<lparr>retryCount := 2\<rparr>) = (Some (Some 42, None), 3) \<and>
   start flaky_task (result_only_pool\<lparr>retryCount := 2\<rparr>) = Some [ResultCallback (Some 42)]"
proof -
  let ?p = "result_only_pool\<lparr>retryCount := 2\<rparr>"
  have h1: "int 2 \<le> retryCount ?p" by simp
  have h2: "\<forall>k<2. \<exists>r e. attempt_of flaky_task ?p k = Some (r, Some e)"
    by (simp add: attempt_of_def result_only_pool_def executeTaskWithoutTimeout_def flaky_task_def)
  have h3: "attempt_of flaky_task ?p 2 = Some (Some 42, None)"
    by (simp add: attempt_of_def result_only_pool_def executeTaskWithoutTimeout_def flaky_task_def)
  from executeTask_retries[of flaky_task ?p] h1 h2 h3
  have "executeTask flaky_task ?p = (Some (Some 42, None), Suc 2) \<and>
        start flaky_task ?p = Some (if resultCallback ?p then [ResultCallback (Some 42)] else [])"
    by blast
  moreover have "attempt_of flaky_task ?p 0 = Some (None, Some ''boom'')"
    "attempt_of flaky_task ?p 1 = Some (None, Some ''boom'')"
    by (simp_all add: attempt_of_def result_only_pool_def executeTaskWithoutTimeout_def flaky_task_def)
  ultimately show ?thesis using h1 h3 by (simp add: result_only_pool_def)
qed

section \<open>Claims about the worker pool\<close>

text \<open>
  Claim C1, as amended. When \<open>executeTask\<close> returns, the worker calls at most one
  callback. If the final attempt ended in an error and an error callback is set, it
  calls the error callback with that error and not the result callback. If the final
  attempt ended in an error and no error callback is set, it calls the result callback,
  when one is set, with the result of that attempt. If the final attempt succeeded, it
  calls the result callback when one is set, and never the error callback.
\<close>

theorem callbacks_after_final_attempt:
  assumes "executeTask t pool = (Some (res, e), n)"
  shows "(e \<noteq> None \<and> errCallback pool \<longrightarrow> start t pool = Some [ErrCallback (the e)]) \<and>
         (e \<noteq> None \<and> \<not> errCallback pool \<and> resultCallback pool \<longrightarrow>
            start t pool = Some [ResultCallback res]) \<and>
         (e = None \<and> resultCallback pool \<longrightarrow> start t pool = Some [ResultCallback res]) \<and>
         (\<not> resultCallback pool \<and> (e = None \<or> \<not> errCallback pool) \<longrightarrow> start t pool = Some [])"
  using assms by (auto simp: start_def handleResult_def)

theorem callbacks_after_final_attempt_witness:
  "executeTask failing_task (result_only_pool\<lparr>errCallback := True\<rparr>) = (Some (None, Some ''boom''), 1) \<and>
   start failing_task (result_only_pool\<lparr>errCallback := True\<rparr>) = Some [ErrCallback ''boom''] \<and>
   executeTask flaky_task (result_only_pool\<lparr>retryCount := 2\<rparr>) = (Some (Some 42, None), 3) \<and>
   start flaky_task (result_only_pool\<lparr>retryCount := 2\<rparr>) = Some [ResultCallback (Some 42)]"
proof -
  have a: "executeTask failing_task (result_only_pool\<lparr>errCallback := True\<rparr>) = (Some (None, Some ''boom''), 1)"
    by (simp add: result_only_pool_def executeTask_def
      executeTask_from.simps attempt_of_def executeTaskWithoutTimeout_def failing_task_def)
  have b: "executeTask flaky_task (result_only_pool\<lparr>retryCount := 2\<rparr>) = (Some (Some 42, None), 3)"
    by (simp add: result_only_pool_def executeTask_def
      executeTask_from.simps attempt_of_def executeTaskWithoutTimeout_def flaky_task_def)
  from callbacks_after_final_attempt[OF a] callbacks_after_final_attempt[OF b] a b
  show ?thesis by (simp add: result_only_pool_def)
qed

text \<open>
  Against claim C1 as stated: on the pool \<open>NewGoroutinePool(1, WithResultCallBack(f))\<close>
  the task that returns an error has its only attempt end in that error, and the worker
  calls the result callback, with a nil result.
\<close>

theorem result_callback_on_error_counterexample:
  "NewGoroutinePool 1 [WithResultCallBack True] = Inr result_only_pool \<and>
   executeTask failing_task result_only_pool = (Some (None, Some ''boom''), 1) \<and>
   start failing_task result_only_pool = Some [ResultCallback None]"
  by (simp add: NewGoroutinePool_def makechan_ok_def makeslice_ok_def maxAlloc_def result_only_pool_def newWorker_def start_def executeTask_def
      executeTask_from.simps attempt_of_def executeTaskWithoutTimeout_def failing_task_def
      handleResult_def)

text \<open>
  Claim C5, at an input where the code departs from it. On a pool with a timeout of one
  second, no retries and a result callback, a task that succeeds at once is attempted
  once; \<open>executeTaskWithTimeout\<close> receives its result and then waits for an error that
  is never sent, so \<open>executeTask\<close> does not return and the worker calls no callback and
  never pushes its index. (For the attempts that do return, the count of attempts, the
  stop at the first success and the single call of the result callback hold: lemma
  \<open>executeTask_retries\<close>.)
\<close>

theorem timeout_success_never_returns:
  "NewGoroutinePool 1 [WithTimeout 1000000000, WithResultCallBack True] = Inr timeout_pool \<and>
   retryCount timeout_pool = 0 \<and> resultCallback timeout_pool \<and>
   quick_task 0 = \<lparr>result = Some 42, err = None, duration = 0\<rparr> \<and>
   executeTaskWithTimeout quick_task timeout_pool 0 = None \<and>
   executeTask quick_task timeout_pool = (None, 1) \<and>
   start quick_task timeout_pool = None"
  by (simp add: NewGoroutinePool_def makechan_ok_def makeslice_ok_def maxAlloc_def timeout_pool_def result_only_pool_def newWorker_def
      quick_task_def executeTaskWithTimeout_def executeTask_def executeTask_from.simps
      attempt_of_def start_def)

text \<open>
  Claim C6, as amended. For a pool that \<open>NewGoroutinePool\<close> creates with a floor
  \<open>minWorkers\<close> not above \<open>maxWorkers\<close>, every sequence of submissions, dispatches,
  completions and firings of the scaling ticker runs without a panic and ends in a pool
  with \<open>minWorkers \<le> workers \<le> maxWorkers\<close>, the two bounds unchanged, and with the
  busy and the idle workers adding up to all workers.
\<close>

theorem worker_count_bounds:
  assumes new: "NewGoroutinePool m opts = Inr p0" and le: "minWorkers p0 \<le> m"
  shows "\<exists>p. pool_run p0 evs = Inr p \<and> minWorkers p = minWorkers p0 \<and> maxWorkers p = m \<and>
           minWorkers p \<le> GetWorkers p \<and> GetWorkers p \<le> maxWorkers p \<and>
           GetRunning p + int (length (workerStack p)) = GetWorkers p"
proof -
  from NewGoroutinePool_Inr[OF new] have inv: "pool_inv p0" and mx: "maxWorkers p0 = m"
    and len: "int (length (workers p0)) = minWorkers p0" by simp_all
  have b: "within_bounds p0" using len le mx by (simp add: within_bounds_def)
  from pool_run_inv[OF inv, of evs] b obtain p where p: "pool_run p0 evs = Inr p"
    "same_config p0 p" "within_bounds p" by blast
  then show ?thesis using mx
    by (intro exI[of _ p]) (simp add: same_config_def within_bounds_def GetWorkers_def GetRunning_def)
qed

theorem worker_count_bounds_witness:
  "NewGoroutinePool 4 [WithMinWorkers 1] = Inr (oversized_pool\<lparr>workers := map newWorker [0..<1],
       workerStack := [0..<1], maxWorkers := 4, minWorkers := 1, spawned := 1\<rparr>) \<and>
   minWorkers (oversized_pool\<lparr>workers := map newWorker [0..<1],
       workerStack := [0..<1], maxWorkers := 4, minWorkers := 1, spawned := 1\<rparr>) \<le> 4 \<and>
   (\<exists>p. pool_run (oversized_pool\<lparr>workers := map newWorker [0..<1],
       workerStack := [0..<1], maxWorkers := 4, minWorkers := 1, spawned := 1\<rparr>)
           [Submit failing_task, Adjust, Submit failing_task, Submit failing_task, Adjust, Adjust] = Inr p \<and>
        1 \<le> GetWorkers p \<and> GetWorkers p \<le> 4)"
proof -
  let ?p0 = "oversized_pool\<lparr>workers := map newWorker [0..<1],
       workerStack := [0..<1], maxWorkers := 4, minWorkers := 1, spawned := 1\<rparr>"
  have n: "NewGoroutinePool 4 [WithMinWorkers 1] = Inr ?p0"
    by (simp add: NewGoroutinePool_def makechan_ok_def makeslice_ok_def maxAlloc_def oversized_pool_def)
  have l: "minWorkers ?p0 \<le> 4" by simp
  from worker_count_bounds[OF n l, of "[Submit failing_task, Adjust, Submit failing_task, Submit failing_task, Adjust, Adjust]"]
  show ?thesis using n l by auto
qed

text \<open>
  Against claim C6 as stated: \<open>NewGoroutinePool(2, WithMinWorkers(5))\<close> starts five
  workers, above \<open>maxWorkers = 2\<close>, and the scaling loop leaves them.
\<close>

theorem worker_bounds_counterexample:
  "NewGoroutinePool 2 [WithMinWorkers 5] = Inr oversized_pool \<and>
   GetWorkers oversized_pool = 5 \<and> maxWorkers oversized_pool = 2 \<and>
   \<not> GetWorkers oversized_pool \<le> maxWorkers oversized_pool \<and>
   pool_run oversized_pool [Adjust, Submit failing_task, Adjust] =
     Inr (oversized_pool\<lparr>taskQueue := [failing_task]\<rparr>)"
  by (simp add: NewGoroutinePool_def makechan_ok_def makeslice_ok_def maxAlloc_def oversized_pool_def GetWorkers_def pool_step_def
      adjustWorkers_def go_div_def Let_def)

text \<open>
  Claim C7. In a pool that satisfies the invariant, with an empty queue, every worker
  idle and more workers than \<open>minWorkers\<close>, one firing of the scaling ticker removes
  \<open>r = ceil((workers - minWorkers) / 2)\<close> workers, at least one and never below the
  floor. The sorted idle stack is \<open>0, ..., workers - 1\<close>; what remains are the first
  \<open>workers - r\<close> workers and their indices; the removed workers are the last \<open>r\<close>, each
  created after every worker that remains; the first \<open>minWorkers\<close> workers are untouched.
\<close>

theorem scale_down_removes_newest:
  assumes inv: "pool_inv p" and q: "taskQueue p = []"
    and idle: "length (workerStack p) = length (workers p)"
    and gt: "int (length (workers p)) > minWorkers p"
  shows "\<exists>r p'. adjustWorkers p = Inr p' \<and>
      int r = \<lceil>(real_of_int (int (length (workers p)) - minWorkers p)) / 2\<rceil> \<and>
      1 \<le> r \<and> r \<le> length (workers p) \<and>
      length (workers p') = length (workers p) - r \<and>
      minWorkers p \<le> int (length (workers p')) \<and>
      sort (workerStack p) = [0..<length (workers p)] \<and>
      workers p' = take (length (workers p) - r) (workers p) \<and>
      workers p = workers p' @ drop (length (workers p) - r) (workers p) \<and>
      workerStack p' = [0..<length (workers p) - r] \<and>
      (\<forall>v \<in> set (workers p'). \<forall>w \<in> set (drop (length (workers p) - r) (workers p)).
          serial v < serial w) \<and>
      take (nat (minWorkers p)) (workers p') = take (nat (minWorkers p)) (workers p)"
proof -
  let ?n = "length (workers p)"
  let ?r = "nat ((int ?n - minWorkers p + 1) div 2)"
  let ?p' = "p\<lparr>workers := take (?n - ?r) (workers p), workerStack := [0..<?n - ?r]\<rparr>"
  have a: "adjustWorkers p = Inr ?p'" by (rule adjust_down[OF inv q idle gt])
  have m: "0 \<le> minWorkers p" using inv by (simp add: pool_inv_def)
  have r1: "1 \<le> (int ?n - minWorkers p + 1) div 2" "(int ?n - minWorkers p + 1) div 2 \<le> int ?n - minWorkers p"
    using gt m by linarith+
  have c: "int ?r = \<lceil>(real_of_int (int ?n - minWorkers p)) / 2\<rceil>"
  proof -
    have "int ?r = (int ?n - minWorkers p + 1) div 2" using r1 by simp
    also have "\<dots> = \<lceil>(real_of_int (int ?n - minWorkers p)) / 2\<rceil>"
      by (rule ceiling_half[symmetric])
    finally show ?thesis .
  qed
  have r2: "1 \<le> ?r" "?r \<le> ?n" using r1 m by linarith+
  have keep: "minWorkers p \<le> int (?n - ?r)" using r1 m by linarith
  have st: "sort (workerStack p) = [0..<?n]"
    using inv idle by (intro sort_perm_upt) (auto simp: pool_inv_def)
  have sw: "sorted_wrt (<) (map serial (take (?n - ?r) (workers p) @ drop (?n - ?r) (workers p)))"
    using inv by (simp add: pool_inv_def)
  have newest: "\<forall>v \<in> set (take (?n - ?r) (workers p)). \<forall>w \<in> set (drop (?n - ?r) (workers p)).
          serial v < serial w"
    using sw unfolding map_append sorted_wrt_append by auto
  have core: "take (nat (minWorkers p)) (take (?n - ?r) (workers p)) = take (nat (minWorkers p)) (workers p)"
  proof -
    have "nat (minWorkers p) \<le> ?n - ?r" using keep m by linarith
    then show ?thesis by (simp add: min_def)
  qed
  have len: "length (workers ?p') = ?n - ?r" using r2 by simp
  have keep': "minWorkers p \<le> int (length (workers ?p'))" using keep len by simp
  have w1: "workers ?p' = take (?n - ?r) (workers p)" by simp
  have w2: "workers p = workers ?p' @ drop (?n - ?r) (workers p)" by simp
  have w3: "workerStack ?p' = [0..<?n - ?r]" by simp
  have newest': "\<forall>v \<in> set (workers ?p'). \<forall>w \<in> set (drop (?n - ?r) (workers p)).
          serial v < serial w" using newest by simp
  have core': "take (nat (minWorkers p)) (workers ?p') = take (nat (minWorkers p)) (workers p)"
    using core by simp
  from a c r2 len keep' st w1 w2 w3 newest' core' show ?thesis by blast
qed

theorem scale_down_removes_newest_witness:
  "pool_inv idle_pool \<and> taskQueue idle_pool = [] \<and>
   length (workerStack idle_pool) = length (workers idle_pool) \<and>
   int (length (workers idle_pool)) > minWorkers idle_pool \<and>
   (\<exists>p'. adjustWorkers idle_pool = Inr p' \<and>
      workers p' = map newWorker [0..<2] \<and> workerStack p' = [0..<2])"
proof -
  have h1: "pool_inv idle_pool" by (rule idle_pool_inv)
  have h2: "taskQueue idle_pool = []" by (simp add: idle_pool_def)
  have h3: "length (workerStack idle_pool) = length (workers idle_pool)"
    by (simp add: idle_pool_def)
  have h4: "int (length (workers idle_pool)) > minWorkers idle_pool" by (simp add: idle_pool_def)
  from scale_down_removes_newest[OF h1 h2 h3 h4] obtain r p' where
    r: "adjustWorkers idle_pool = Inr p'"
     "int r = \<lceil>(real_of_int (int (length (workers idle_pool)) - minWorkers idle_pool)) / 2\<rceil>"
     "workers p' = take (length (workers idle_pool) - r) (workers idle_pool)"
     "workerStack p' = [0..<length (workers idle_pool) - r]"
    by blast
  have "int r = 2" using r(2) by (simp add: idle_pool_def)
  then have r2: "r = 2" by simp
  have "workers p' = map newWorker [0..<2]" "workerStack p' = [0..<2]"
    using r(3,4) unfolding r2 by (simp_all add: idle_pool_def take_map upt_rec numeral_nat)
  with r(1) h1 h2 h3 h4 show ?thesis by blast
qed

text \<open>
  Claim C10. For a pool that \<open>NewGoroutinePool\<close> creates, after every sequence of
  submissions, dispatches, completions and scaling steps \<open>GetTaskQueenSize\<close> returns the
  capacity the options configured (1,000,000 by default), the value it returned at
  construction. It does not depend on the content of the queue, so it differs from the
  number of pending tasks whenever that number is not the capacity itself.
\<close>

theorem GetTaskQueenSize_is_capacity:
  assumes new: "NewGoroutinePool m opts = Inr p0"
  shows "\<exists>p. pool_run p0 evs = Inr p \<and>
           GetTaskQueenSize p = configuredQueueSize opts \<and>
           GetTaskQueenSize p = GetTaskQueenSize p0 \<and>
           (\<forall>q. GetTaskQueenSize (p\<lparr>taskQueue := q\<rparr>) = GetTaskQueenSize p) \<and>
           (int (length (taskQueue p)) \<noteq> configuredQueueSize opts \<longrightarrow>
              GetTaskQueenSize p \<noteq> int (length (taskQueue p)))"
proof -
  from NewGoroutinePool_Inr[OF new] have inv: "pool_inv p0" by simp
  from pool_run_inv[OF inv, of evs] obtain p where p: "pool_run p0 evs = Inr p"
    "same_config p0 p" by blast
  then show ?thesis using NewGoroutinePool_queue[OF new]
    by (intro exI[of _ p]) (auto simp: same_config_def GetTaskQueenSize_def)
qed

theorem GetTaskQueenSize_is_capacity_witness:
  "NewGoroutinePool 1 [WithTaskQueueSize 3, WithResultCallBack True] =
      Inr (result_only_pool\<lparr>taskQueueSize := 3\<rparr>) \<and>
   pool_run (result_only_pool\<lparr>taskQueueSize := 3\<rparr>) [Submit failing_task, Submit flaky_task] =
      Inr (result_only_pool\<lparr>taskQueueSize := 3, taskQueue := [failing_task, flaky_task]\<rparr>) \<and>
   GetTaskQueenSize (result_only_pool\<lparr>taskQueueSize := 3, taskQueue := [failing_task, flaky_task]\<rparr>) = 3 \<and>
   configuredQueueSize [WithTaskQueueSize 3, WithResultCallBack True] = 3"
proof -
  let ?p0 = "result_only_pool\<lparr>taskQueueSize := 3\<rparr>"
  have n: "NewGoroutinePool 1 [WithTaskQueueSize 3, WithResultCallBack True] = Inr ?p0"
    by (simp add: NewGoroutinePool_def makechan_ok_def makeslice_ok_def maxAlloc_def result_only_pool_def newWorker_def)
  have run: "pool_run ?p0 [Submit failing_task, Submit flaky_task] =
      Inr (result_only_pool\<lparr>taskQueueSize := 3, taskQueue := [failing_task, flaky_task]\<rparr>)"
    by (simp add: pool_step_def result_only_pool_def)
  from GetTaskQueenSize_is_capacity[OF n, of "[Submit failing_task, Submit flaky_task]"] run
  have "GetTaskQueenSize (result_only_pool\<lparr>taskQueueSize := 3, taskQueue := [failing_task, flaky_task]\<rparr>)
          = configuredQueueSize [WithTaskQueueSize 3, WithResultCallBack True]"
    by auto
  moreover have "configuredQueueSize [WithTaskQueueSize 3, WithResultCallBack True] = 3"
    by (simp add: configuredQueueSize_def)
  ultimately show ?thesis using n run by simp
qed

end
